theory Spec2Isabelle
  imports Main "HOL-Library.Sublist" "HOL-Library.List_Lexorder"
begin

section \<open>JavaScript values\<close>

text \<open>
  A JavaScript string is a sequence of UTF-16 code units; a code unit is modelled by its
  number. \<open>js\<close> turns a literal into such a sequence, so that \<open>js ''a/b''\<close> is the
  JavaScript string \<^verbatim>\<open>"a/b"\<close>.
\<close>

type_synonym jsstring = "nat list"

definition js :: "string \<Rightarrow> jsstring" where
  "js s = map of_char s"

text \<open>
  The result of \<^verbatim>\<open>parseInt(x, 10)\<close>: an integer or \<^verbatim>\<open>NaN\<close>. \<open>truthy\<close> is the
  test an \<^verbatim>\<open>if (n)\<close> makes on it: \<^verbatim>\<open>NaN\<close> and \<^verbatim>\<open>0\<close> are falsy.
\<close>

datatype jsnum = NaN | Num int

fun truthy :: "jsnum \<Rightarrow> bool" where
  "truthy NaN = False"
| "truthy (Num n) = (n \<noteq> 0)"

fun isNaN :: "jsnum \<Rightarrow> bool" where
  "isNaN NaN = True"
| "isNaN (Num n) = False"

section \<open>fileUtils.ts\<close>

text \<open>
  \<^verbatim>\<open>String.prototype.trim\<close> removes the WhiteSpace and LineTerminator code units of
  ECMAScript from both ends.
\<close>

definition is_js_whitespace :: "nat \<Rightarrow> bool" where
  "is_js_whitespace c =
     (c = 9 \<or> c = 10 \<or> c = 11 \<or> c = 12 \<or> c = 13 \<or> c = 32 \<or> c = 160 \<or> c = 5760
      \<or> (8192 \<le> c \<and> c \<le> 8202) \<or> c = 8232 \<or> c = 8233 \<or> c = 8239 \<or> c = 8287
      \<or> c = 12288 \<or> c = 65279)"

definition js_trim :: "jsstring \<Rightarrow> jsstring" where
  "js_trim s = rev (dropWhile is_js_whitespace (rev (dropWhile is_js_whitespace s)))"

text \<open>\<^verbatim>\<open>s.replace(/[...]/g, '_')\<close> for a character class: every member becomes \<^verbatim>\<open>_\<close> (95).\<close>

definition replace_class :: "(nat \<Rightarrow> bool) \<Rightarrow> jsstring \<Rightarrow> jsstring" where
  "replace_class cls s = map (\<lambda>c. if cls c then 95 else c) s"

text \<open>
  \<^verbatim>\<open>s.replace(/\.\./g, '_')\<close>: the matches are taken from the left and do not overlap,
  so \<^verbatim>\<open>"..."\<close> becomes \<^verbatim>\<open>"_."\<close>. The dot is code unit 46.
\<close>

fun replace_dotdot :: "jsstring \<Rightarrow> jsstring" where
  "replace_dotdot (a # b # s) =
     (if a = 46 \<and> b = 46 then 95 # replace_dotdot s else a # replace_dotdot (b # s))"
| "replace_dotdot s = s"

text \<open>The class \<^verbatim>\<open>[\/\\]\<close>: slash (47) and backslash (92).\<close>

definition is_path_separator :: "nat \<Rightarrow> bool" where
  "is_path_separator c = (c = 47 \<or> c = 92)"

text \<open>The class \<^verbatim>\<open>[<>:"|?*]\<close>.\<close>

definition is_reserved_char :: "nat \<Rightarrow> bool" where
  "is_reserved_char c = (c = 60 \<or> c = 62 \<or> c = 58 \<or> c = 34 \<or> c = 124 \<or> c = 63 \<or> c = 42)"

definition sanitizeFilename :: "jsstring \<Rightarrow> jsstring" where
  "sanitizeFilename filename =
     js_trim (replace_class is_reserved_char
       (replace_dotdot (replace_class is_path_separator filename)))"

text \<open>
  \<^verbatim>\<open>generateUniqueFilename\<close>. \<^verbatim>\<open>path.extname\<close> and \<^verbatim>\<open>path.basename\<close> are Node's,
  taken as parameters; so are the decimal text of \<^verbatim>\<open>Date.now()\<close> and the random
  suffix.
\<close>

definition generateUniqueFilename ::
  "(jsstring \<Rightarrow> jsstring) \<Rightarrow> (jsstring \<Rightarrow> jsstring \<Rightarrow> jsstring) \<Rightarrow> jsstring \<Rightarrow> jsstring
     \<Rightarrow> jsstring \<Rightarrow> jsstring" where
  "generateUniqueFilename extname basename timestamp random originalFilename =
     (let ext = extname originalFilename;
          base = basename originalFilename ext;
          sanitized = sanitizeFilename base
      in sanitized @ [95] @ timestamp @ [95] @ random @ ext)"

section \<open>The catalog (db/database.ts)\<close>

text \<open>
  The four tables of the schema, one record per row, in the order of their rowids. A
  \<^verbatim>\<open>DATETIME\<close> column is a number of the clock. A nullable column is an option
  (\<open>None\<close> is \<^verbatim>\<open>NULL\<close>). The \<^verbatim>\<open>files\<close> table has the two columns the migration
  adds: \<^verbatim>\<open>folder_id INTEGER\<close>, with no foreign key, and
  \<^verbatim>\<open>current_version INTEGER DEFAULT 1\<close>, which no statement of the code sets to
  \<^verbatim>\<open>NULL\<close>.
\<close>

record user =
  u_id :: int
  u_username :: jsstring

record folder =
  d_id :: int
  d_name :: jsstring
  d_parent_folder_id :: "int option"
  d_created_by :: int
  d_created_at :: int

record file_row =
  f_id :: int
  f_filename :: jsstring
  f_original_filename :: jsstring
  f_file_path :: jsstring
  f_file_size :: int
  f_mime_type :: jsstring
  f_uploaded_by :: int
  f_uploaded_at :: int
  f_folder_id :: "int option"
  f_current_version :: int

record version_row =
  v_id :: int
  v_file_id :: int
  v_version_number :: int
  v_file_path :: jsstring
  v_file_size :: int
  v_uploaded_by :: int
  v_uploaded_at :: int

text \<open>
  The database: the tables, and for each \<^verbatim>\<open>AUTOINCREMENT\<close> key the largest rowid the
  table has ever used (SQLite's \<^verbatim>\<open>sqlite_sequence\<close>); a new row gets that number plus
  one, so a rowid is never used twice.
\<close>

record database =
  users :: "user list"
  folders :: "folder list"
  files :: "file_row list"
  file_versions :: "version_row list"
  folders_seq :: int
  files_seq :: int
  file_versions_seq :: int

definition empty_database :: "user list \<Rightarrow> database" where
  "empty_database us =
     \<lparr>users = us, folders = [], files = [], file_versions = [],
      folders_seq = 0, files_seq = 0, file_versions_seq = 0\<rparr>"

text \<open>
  The outcomes of a handler that is not a success, by the error kinds of the
  specification. The handlers answer with an HTTP status and a message:
  \<^item> 400 for an identifier that is not a number, an empty name, a missing upload:
    \<open>InvalidInput\<close>;
  \<^item> 400 \<^verbatim>\<open>Folder with this name already exists\<close>: \<open>Conflict\<close>;
  \<^item> 404: \<open>NotFound\<close>;
  \<^item> 403 \<^verbatim>\<open>You can only ...\<close>: \<open>PermissionDenied\<close>;
  \<^item> 403 \<^verbatim>\<open>Access denied\<close>: \<open>AccessDenied\<close>;
  \<^item> 500, the \<^verbatim>\<open>catch\<close> of every handler: \<open>InternalError\<close>;
  \<^item> no answer, when a read stream fails after the handler has returned:
    \<open>StreamError\<close>.
\<close>

datatype error =
  InvalidInput | NotFound | Conflict | PermissionDenied | AccessDenied | InternalError
  | StreamError

text \<open>
  How a JavaScript number is bound to a statement's parameter: \<^verbatim>\<open>null\<close> and
  \<^verbatim>\<open>NaN\<close> are bound as \<^verbatim>\<open>NULL\<close>.
\<close>

fun sql_param :: "jsnum option \<Rightarrow> int option" where
  "sql_param None = None"
| "sql_param (Some NaN) = None"
| "sql_param (Some (Num n)) = Some n"

text \<open>\<^verbatim>\<open>column = ?\<close> in a \<^verbatim>\<open>WHERE\<close>: a comparison with \<^verbatim>\<open>NULL\<close> selects no row.\<close>

fun sql_eq :: "int option \<Rightarrow> int option \<Rightarrow> bool" where
  "sql_eq (Some a) (Some b) = (a = b)"
| "sql_eq _ _ = False"

text \<open>
  How a JavaScript string is bound to a statement's parameter: as UTF-8, in which a
  surrogate code unit that is not half of a pair becomes U+FFFD (65533). \<open>sql_text s\<close>
  is the text SQLite stores and compares for \<open>s\<close>, in code units again.
\<close>

definition is_high_surrogate :: "nat \<Rightarrow> bool" where
  "is_high_surrogate c = (55296 \<le> c \<and> c \<le> 56319)"

definition is_low_surrogate :: "nat \<Rightarrow> bool" where
  "is_low_surrogate c = (56320 \<le> c \<and> c \<le> 57343)"

fun sql_text :: "jsstring \<Rightarrow> jsstring" where
  "sql_text (a # b # s) =
     (if is_high_surrogate a \<and> is_low_surrogate b then a # b # sql_text s
      else (if is_high_surrogate a \<or> is_low_surrogate a then 65533 else a)
             # sql_text (b # s))"
| "sql_text [a] = [if is_high_surrogate a \<or> is_low_surrogate a then 65533 else a]"
| "sql_text [] = []"

text \<open>
  \<^verbatim>\<open>ORDER BY\<close> on a text column compares the UTF-8 bytes, which is the order of the
  code points: a pair of surrogates counts as the one code point it encodes.
\<close>

fun code_points :: "jsstring \<Rightarrow> nat list" where
  "code_points (a # b # s) =
     (if is_high_surrogate a \<and> is_low_surrogate b
      then (65536 + (a - 55296) * 1024 + (b - 56320)) # code_points s
      else a # code_points (b # s))"
| "code_points s = s"

text \<open>\<^verbatim>\<open>x ? ... : null\<close> and \<^verbatim>\<open>if (x)\<close> on a number that may be \<^verbatim>\<open>null\<close>.\<close>

fun truthy_opt :: "jsnum option \<Rightarrow> bool" where
  "truthy_opt None = False"
| "truthy_opt (Some n) = truthy n"

text \<open>\<^verbatim>\<open>x || d\<close> on a number that may be \<^verbatim>\<open>null\<close> or \<^verbatim>\<open>undefined\<close>.\<close>

fun js_or :: "int option \<Rightarrow> int \<Rightarrow> int" where
  "js_or None d = d"
| "js_or (Some n) d = (if n = 0 then d else n)"

text \<open>The aggregate \<^verbatim>\<open>MAX\<close>: \<^verbatim>\<open>NULL\<close> over no rows.\<close>

fun sql_max :: "int list \<Rightarrow> int option" where
  "sql_max [] = None"
| "sql_max (x # xs) = Some (fold max xs x)"

text \<open>
  The aggregate \<^verbatim>\<open>SUM\<close> over an \<^verbatim>\<open>INTEGER\<close> column: SQLite adds the rows up in
  a signed 64-bit integer and the statement throws \<^verbatim>\<open>integer overflow\<close> when a
  partial sum leaves its range. The outer \<open>None\<close> is that exception, the inner one is
  \<^verbatim>\<open>NULL\<close>, the sum of no rows.
\<close>

definition int64 :: "int \<Rightarrow> bool" where
  "int64 n = (- (2 ^ 63) \<le> n \<and> n < 2 ^ 63)"

fun sql_sum_from :: "int \<Rightarrow> int list \<Rightarrow> int option" where
  "sql_sum_from acc [] = Some acc"
| "sql_sum_from acc (x # xs) =
     (if int64 (acc + x) then sql_sum_from (acc + x) xs else None)"

definition sql_sum :: "int list \<Rightarrow> int option option" where
  "sql_sum xs = (if xs = [] then Some None else map_option Some (sql_sum_from 0 xs))"

text \<open>
  A JavaScript number is a double. The driver hands a 64-bit integer of a result row
  over as a number, and \<^verbatim>\<open>+\<close> on two numbers is the exact sum taken to a number
  again. An integer of at most 53 bits is a number as it is; a longer one is rounded to
  53 bits, to the nearest and, on a tie, to the even one. (The integers here stay far
  below \<open>2 ^ 1024\<close>, where a double ends.)
\<close>

function bit_length :: "nat \<Rightarrow> nat" where
  "bit_length n = (if n = 0 then 0 else Suc (bit_length (n div 2)))"
  by pat_completeness auto
termination
  by (relation "measure (\<lambda>n. n)") auto

declare bit_length.simps [simp del]

definition js_number :: "int \<Rightarrow> int" where
  "js_number n =
     (let a = nat \<bar>n\<bar>; e = bit_length a in
      if e \<le> 53 then n
      else
        let q = 2 ^ (e - 53); m = a div q; r = a mod q;
            m' = (if q < 2 * r \<or> (2 * r = q \<and> odd m) then m + 1 else m)
        in sgn n * int (m' * q))"

definition js_add :: "int \<Rightarrow> int \<Rightarrow> int" where
  "js_add a b = js_number (a + b)"

subsection \<open>Statements on the folders table\<close>

text \<open>\<^verbatim>\<open>SELECT ... FROM folders WHERE id = ?\<close>, read with \<^verbatim>\<open>get\<close>.\<close>

definition select_folder :: "database \<Rightarrow> int option \<Rightarrow> folder option" where
  "select_folder db i = find (\<lambda>r. sql_eq (Some (d_id r)) i) (folders db)"

text \<open>
  \<^verbatim>\<open>INSERT INTO folders (name, parent_folder_id, created_by)\<close>. The statement throws,
  and changes nothing, when a constraint fails: the two foreign keys, and
  \<^verbatim>\<open>UNIQUE(name, parent_folder_id)\<close>, which SQLite does not apply to a row whose parent
  is \<^verbatim>\<open>NULL\<close>.
\<close>

definition insert_folder ::
  "database \<Rightarrow> int \<Rightarrow> jsstring \<Rightarrow> int option \<Rightarrow> int \<Rightarrow> database option" where
  "insert_folder db now name parent created_by =
     (if (case parent of None \<Rightarrow> False | Some p \<Rightarrow> p \<notin> d_id ` set (folders db))
         \<or> created_by \<notin> u_id ` set (users db)
         \<or> (\<exists>r \<in> set (folders db). d_name r = name \<and> sql_eq (d_parent_folder_id r) parent)
      then None
      else Some (db\<lparr>folders := folders db @
                       [\<lparr>d_id = folders_seq db + 1, d_name = name, d_parent_folder_id = parent,
                         d_created_by = created_by, d_created_at = now\<rparr>],
                     folders_seq := folders_seq db + 1\<rparr>))"

text \<open>
  \<^verbatim>\<open>DELETE FROM folders WHERE id = ?\<close> with
  \<^verbatim>\<open>FOREIGN KEY (parent_folder_id) REFERENCES folders(id) ON DELETE CASCADE\<close>: deleting a
  row deletes the rows whose parent it is, and so on. SQLite runs the action of a
  deleted row as a trigger program, and the statement fails, changing nothing, when
  these programs nest deeper than \<^verbatim>\<open>SQLITE_MAX_TRIGGER_DEPTH\<close>, 1000 unless SQLite is
  built otherwise: the row of the statement itself is at level 0, a row deleted by the
  action of a row at level \<open>k\<close> is at level \<open>k + 1\<close>, and a row at level 1000 or more
  cannot be deleted. The second argument holds the ids still to delete, with their
  levels; \<open>None\<close> is the failure.
\<close>

definition max_trigger_depth :: nat where
  "max_trigger_depth = 1000"

function delete_cascade :: "folder list \<Rightarrow> (int \<times> nat) list \<Rightarrow> folder list option" where
  "delete_cascade rows [] = Some rows"
| "delete_cascade rows ((i, level) # todo) =
     (if i \<in> d_id ` set rows
      then if max_trigger_depth \<le> level then None
           else delete_cascade (filter (\<lambda>r. d_id r \<noteq> i) rows)
                  (map (\<lambda>r. (d_id r, Suc level))
                     (filter (\<lambda>r. d_parent_folder_id r = Some i)
                        (filter (\<lambda>r. d_id r \<noteq> i) rows)) @ todo)
      else delete_cascade rows todo)"
  by pat_completeness auto
termination
proof (relation "measures [\<lambda>(rows, todo). length rows, \<lambda>(rows, todo). length todo]")
  fix rows :: "folder list" and i :: int and level :: nat and todo :: "(int \<times> nat) list"
  assume "i \<in> d_id ` set rows"
  then have "length (filter (\<lambda>r. d_id r \<noteq> i) rows) < length rows"
    by (auto intro!: length_filter_less)
  then show "((filter (\<lambda>r. d_id r \<noteq> i) rows,
        map (\<lambda>r. (d_id r, Suc level)) (filter (\<lambda>r. d_parent_folder_id r = Some i)
          (filter (\<lambda>r. d_id r \<noteq> i) rows)) @ todo), rows, (i, level) # todo)
      \<in> measures [\<lambda>(rows, todo). length rows, \<lambda>(rows, todo). length todo]"
    by simp
qed auto

section \<open>routes/folders.ts\<close>

text \<open>
  \<^verbatim>\<open>POST /create\<close>. \<open>name\<close> is the body's string; \<open>parentFolderId\<close> is \<open>None\<close> when
  the body's value is falsy (absent, \<^verbatim>\<open>null\<close>, \<^verbatim>\<open>0\<close>, the empty string) and
  otherwise what \<^verbatim>\<open>parseInt\<close> makes of it; \<open>userId\<close> is the caller
  \<^verbatim>\<open>requireAuth\<close> has identified. The answer is the new row's id.
\<close>

definition createFolder ::
  "database \<Rightarrow> int \<Rightarrow> jsstring \<Rightarrow> jsnum option \<Rightarrow> int \<Rightarrow> (error + int) \<times> database" where
  "createFolder db now name parentFolderId userId =
     (if length (js_trim name) = 0 then (Inl InvalidInput, db)
      else
        let sanitizedName = sanitizeFilename (js_trim name) in
        if length sanitizedName = 0 then (Inl InvalidInput, db)
        else
          let parentId = parentFolderId in
          if truthy_opt parentId \<and> select_folder db (sql_param parentId) = None
          then (Inl NotFound, db)
          else if find (\<lambda>r. d_name r = sql_text sanitizedName
                         \<and> (sql_eq (d_parent_folder_id r) (sql_param parentId)
                            \<or> (d_parent_folder_id r = None \<and> sql_param parentId = None)))
                    (folders db) \<noteq> None
          then (Inl Conflict, db)
          else
            (case insert_folder db now (sql_text sanitizedName) (sql_param parentId) userId of
               None \<Rightarrow> (Inl InternalError, db)
             | Some db' \<Rightarrow> (Inr (folders_seq db'), db')))"

text \<open>
  \<^verbatim>\<open>GET /contents/:folderId?\<close>. The answer lists the subfolders by name and the files
  by upload time, newest first; each row is joined with its user.
\<close>

record folder_info =
  fi_id :: int
  fi_name :: jsstring
  fi_createdAt :: int
  fi_createdBy :: jsstring

record file_info =
  li_id :: int
  li_filename :: jsstring
  li_size :: int
  li_mimeType :: jsstring
  li_uploadedAt :: int
  li_currentVersion :: int
  li_uploadedBy :: jsstring

definition listContents ::
  "database \<Rightarrow> jsnum option \<Rightarrow> error + (folder_info list \<times> file_info list)" where
  "listContents db folderId =
     (if (case folderId of None \<Rightarrow> False | Some n \<Rightarrow> truthy n \<and> isNaN n)
      then Inl InvalidInput
      else if truthy_opt folderId \<and> select_folder db (sql_param folderId) = None
      then Inl NotFound
      else
        let fds = sort_key (\<lambda>(f, u). code_points (d_name f))
                   [(f, u). f \<leftarrow> folders db, u \<leftarrow> users db, d_created_by f = u_id u,
                      sql_eq (d_parent_folder_id f) (sql_param folderId)
                      \<or> (d_parent_folder_id f = None \<and> sql_param folderId = None)];
            fls = sort_key (\<lambda>(f, u). - f_uploaded_at f)
                   [(f, u). f \<leftarrow> files db, u \<leftarrow> users db, f_uploaded_by f = u_id u,
                      sql_eq (f_folder_id f) (sql_param folderId)
                      \<or> (f_folder_id f = None \<and> sql_param folderId = None)]
        in Inr (map (\<lambda>(f, u). \<lparr>fi_id = d_id f, fi_name = d_name f,
                      fi_createdAt = d_created_at f, fi_createdBy = u_username u\<rparr>) fds,
                map (\<lambda>(f, u). \<lparr>li_id = f_id f, li_filename = f_original_filename f,
                      li_size = f_file_size f, li_mimeType = f_mime_type f,
                      li_uploadedAt = f_uploaded_at f,
                      li_currentVersion = f_current_version f,
                      li_uploadedBy = u_username u\<rparr>) fls))"

text \<open>\<^verbatim>\<open>DELETE /:folderId\<close>, for the caller \<open>userId\<close>.\<close>

definition deleteFolder :: "database \<Rightarrow> jsnum \<Rightarrow> int \<Rightarrow> (error + unit) \<times> database" where
  "deleteFolder db folderId userId =
     (case folderId of
        NaN \<Rightarrow> (Inl InvalidInput, db)
      | Num i \<Rightarrow>
          (case select_folder db (Some i) of
             None \<Rightarrow> (Inl NotFound, db)
           | Some folder \<Rightarrow>
               if d_created_by folder \<noteq> userId then (Inl PermissionDenied, db)
               else
                 (case delete_cascade (folders db) [(i, 0)] of
                    None \<Rightarrow> (Inl InternalError, db)
                  | Some rows \<Rightarrow> (Inr (), db\<lparr>folders := rows\<rparr>))))"

section \<open>routes/files.ts and routes/versions.ts\<close>

subsection \<open>Statements on the files and file_versions tables\<close>

text \<open>\<^verbatim>\<open>SELECT ... FROM files WHERE id = ?\<close>, read with \<^verbatim>\<open>get\<close>.\<close>

definition select_file :: "database \<Rightarrow> int \<Rightarrow> file_row option" where
  "select_file db i = find (\<lambda>f. f_id f = i) (files db)"

text \<open>
  \<^verbatim>\<open>INSERT INTO files (filename, original_filename, file_path, file_size, mime_type,
  folder_id, uploaded_by)\<close>: \<^verbatim>\<open>current_version\<close> takes its default, 1. The only
  constraint that can fail is the foreign key of \<^verbatim>\<open>uploaded_by\<close>.
\<close>

definition insert_file ::
  "database \<Rightarrow> int \<Rightarrow> jsstring \<Rightarrow> jsstring \<Rightarrow> jsstring \<Rightarrow> int \<Rightarrow> jsstring \<Rightarrow> int option \<Rightarrow> int
     \<Rightarrow> database option" where
  "insert_file db now filename original_filename file_path file_size mime_type folder_id
       uploaded_by =
     (if uploaded_by \<notin> u_id ` set (users db) then None
      else Some (db\<lparr>files := files db @
                       [\<lparr>f_id = files_seq db + 1, f_filename = filename,
                         f_original_filename = original_filename, f_file_path = file_path,
                         f_file_size = file_size, f_mime_type = mime_type,
                         f_uploaded_by = uploaded_by, f_uploaded_at = now,
                         f_folder_id = folder_id, f_current_version = 1\<rparr>],
                     files_seq := files_seq db + 1\<rparr>))"

text \<open>
  \<^verbatim>\<open>INSERT INTO file_versions (file_id, version_number, file_path, file_size,
  uploaded_by)\<close>, with its two foreign keys and \<^verbatim>\<open>UNIQUE(file_id, version_number)\<close>.
\<close>

definition insert_version ::
  "database \<Rightarrow> int \<Rightarrow> int \<Rightarrow> int \<Rightarrow> jsstring \<Rightarrow> int \<Rightarrow> int \<Rightarrow> database option" where
  "insert_version db now file_id version_number file_path file_size uploaded_by =
     (if file_id \<notin> f_id ` set (files db)
         \<or> uploaded_by \<notin> u_id ` set (users db)
         \<or> (\<exists>v \<in> set (file_versions db).
               v_file_id v = file_id \<and> v_version_number v = version_number)
      then None
      else Some (db\<lparr>file_versions := file_versions db @
                       [\<lparr>v_id = file_versions_seq db + 1, v_file_id = file_id,
                         v_version_number = version_number, v_file_path = file_path,
                         v_file_size = file_size, v_uploaded_by = uploaded_by,
                         v_uploaded_at = now\<rparr>],
                     file_versions_seq := file_versions_seq db + 1\<rparr>))"

text \<open>\<^verbatim>\<open>UPDATE files SET current_version = ? WHERE id = ?\<close>.\<close>

definition update_current_version :: "database \<Rightarrow> int \<Rightarrow> int \<Rightarrow> database" where
  "update_current_version db version i =
     db\<lparr>files := map (\<lambda>f. if f_id f = i then f\<lparr>f_current_version := version\<rparr> else f)
                    (files db)\<rparr>"

text \<open>\<^verbatim>\<open>SELECT ... FROM file_versions WHERE file_id = ? AND version_number = ?\<close>.\<close>

definition select_version :: "database \<Rightarrow> int \<Rightarrow> int \<Rightarrow> version_row option" where
  "select_version db i n =
     find (\<lambda>v. v_file_id v = i \<and> v_version_number v = n) (file_versions db)"

subsection \<open>Upload\<close>

text \<open>
  What multer hands to a handler for one uploaded file, after it has checked the type and
  the size and written the bytes under the upload directory.
\<close>

record multer_file =
  m_filename :: jsstring
  m_originalname :: jsstring
  m_path :: jsstring
  m_size :: int
  m_mimetype :: jsstring

record uploaded_file =
  up_id :: int
  up_filename :: jsstring
  up_size :: int
  up_mimeType :: jsstring

text \<open>
  The loop of \<^verbatim>\<open>POST /upload\<close> over the request's files. The inserts are not in a
  transaction: when one throws, the rows of the files before it stay.
\<close>

fun upload_loop ::
  "database \<Rightarrow> int \<Rightarrow> multer_file list \<Rightarrow> int option \<Rightarrow> int \<Rightarrow> uploaded_file list
     \<Rightarrow> (error + uploaded_file list) \<times> database" where
  "upload_loop db now [] folderId userId uploadedFiles = (Inr uploadedFiles, db)"
| "upload_loop db now (file # rest) folderId userId uploadedFiles =
     (case insert_file db now (m_filename file) (sanitizeFilename (m_originalname file))
             (m_path file) (m_size file) (m_mimetype file) folderId userId of
        None \<Rightarrow> (Inl InternalError, db)
      | Some db' \<Rightarrow>
          upload_loop db' now rest folderId userId
            (uploadedFiles @
               [\<lparr>up_id = files_seq db', up_filename = sanitizeFilename (m_originalname file),
                 up_size = m_size file, up_mimeType = m_mimetype file\<rparr>]))"

text \<open>
  \<^verbatim>\<open>POST /upload\<close>: \<open>folderId\<close> is \<open>None\<close> when the body's \<^verbatim>\<open>folderId\<close> is
  falsy, and otherwise what \<^verbatim>\<open>parseInt\<close> makes of it.
\<close>

definition uploadFiles ::
  "database \<Rightarrow> int \<Rightarrow> multer_file list \<Rightarrow> jsnum option \<Rightarrow> int
     \<Rightarrow> (error + uploaded_file list) \<times> database" where
  "uploadFiles db now reqfiles folderId userId =
     (if reqfiles = [] then (Inl InvalidInput, db)
      else if truthy_opt folderId \<and> select_folder db (sql_param folderId) = None
      then (Inl NotFound, db)
      else upload_loop db now reqfiles (sql_param folderId) userId [])"

subsection \<open>Versions\<close>

record new_version =
  nv_id :: int
  nv_versionNumber :: int
  nv_fileSize :: int

text \<open>
  \<^verbatim>\<open>POST /upload/:fileId\<close> (AddVersion): \<open>fileId\<close> is what \<^verbatim>\<open>parseInt\<close> makes of the
  parameter, \<open>file\<close> is \<^verbatim>\<open>req.file\<close>.
\<close>

definition addVersion ::
  "database \<Rightarrow> int \<Rightarrow> jsnum \<Rightarrow> multer_file option \<Rightarrow> int \<Rightarrow> (error + new_version) \<times> database"
  where
  "addVersion db now fileId file userId =
     (case fileId of
        NaN \<Rightarrow> (Inl InvalidInput, db)
      | Num i \<Rightarrow>
          (case file of
             None \<Rightarrow> (Inl InvalidInput, db)
           | Some reqfile \<Rightarrow>
               (case select_file db i of
                  None \<Rightarrow> (Inl NotFound, db)
                | Some originalFile \<Rightarrow>
                    let maxVersion = sql_max (map v_version_number
                                       (filter (\<lambda>v. v_file_id v = i) (file_versions db)));
                        currentFile = select_file db i;
                        currentVersion = js_or (map_option f_current_version currentFile) 0;
                        maxVersionNum = js_or maxVersion currentVersion;
                        nextVersion = max maxVersionNum currentVersion + 1
                    in (case insert_version db now i nextVersion (m_path reqfile)
                               (m_size reqfile) userId of
                          None \<Rightarrow> (Inl InternalError, db)
                        | Some db' \<Rightarrow>
                            (Inr \<lparr>nv_id = file_versions_seq db', nv_versionNumber = nextVersion,
                                  nv_fileSize = m_size reqfile\<rparr>,
                             update_current_version db' nextVersion i)))))"

text \<open>AddVersion called once for each upload of a list, in order, on one file.\<close>

fun addVersions ::
  "database \<Rightarrow> jsnum \<Rightarrow> (int \<times> multer_file \<times> int) list
     \<Rightarrow> (error + new_version) list \<times> database" where
  "addVersions db fileId [] = ([], db)"
| "addVersions db fileId ((now, file, userId) # rest) =
     (let (r, db') = addVersion db now fileId (Some file) userId;
          (rs, db'') = addVersions db' fileId rest
      in (r # rs, db''))"

record version_info =
  vi_id :: int
  vi_versionNumber :: int
  vi_fileSize :: int
  vi_uploadedAt :: int
  vi_uploadedBy :: jsstring
  vi_isCurrent :: bool

record versions_response =
  vr_fileId :: int
  vr_filename :: jsstring
  vr_currentVersion :: int
  vr_versions :: "version_info list"

text \<open>
  \<^verbatim>\<open>GET /:fileId\<close> (ListVersions): the version rows of the file, joined with their
  users, \<^verbatim>\<open>ORDER BY v.version_number DESC\<close>.
\<close>

definition listVersions :: "database \<Rightarrow> jsnum \<Rightarrow> error + versions_response" where
  "listVersions db fileId =
     (case fileId of
        NaN \<Rightarrow> Inl InvalidInput
      | Num i \<Rightarrow>
          (case select_file db i of
             None \<Rightarrow> Inl NotFound
           | Some file \<Rightarrow>
               let versions = sort_key (\<lambda>(v, u). - v_version_number v)
                                [(v, u). v \<leftarrow> file_versions db, u \<leftarrow> users db,
                                   v_uploaded_by v = u_id u, v_file_id v = i]
               in Inr \<lparr>vr_fileId = f_id file, vr_filename = f_original_filename file,
                       vr_currentVersion = f_current_version file,
                       vr_versions =
                         map (\<lambda>(v, u).
                                \<lparr>vi_id = v_id v, vi_versionNumber = v_version_number v,
                                 vi_fileSize = v_file_size v, vi_uploadedAt = v_uploaded_at v,
                                 vi_uploadedBy = u_username u,
                                 vi_isCurrent = (v_version_number v = f_current_version file)\<rparr>)
                             versions\<rparr>))"

text \<open>
  \<^verbatim>\<open>POST /restore/:fileId/:versionNumber\<close> (RestoreVersion); the answer is the new
  current version.
\<close>

definition restoreVersion :: "database \<Rightarrow> jsnum \<Rightarrow> jsnum \<Rightarrow> (error + int) \<times> database" where
  "restoreVersion db fileId versionNumber =
     (case (fileId, versionNumber) of
        (Num i, Num n) \<Rightarrow>
          (case select_file db i of
             None \<Rightarrow> (Inl NotFound, db)
           | Some file \<Rightarrow>
               (case select_version db i n of
                  None \<Rightarrow> (Inl NotFound, db)
                | Some version \<Rightarrow> (Inr n, update_current_version db n i)))
      | _ \<Rightarrow> (Inl InvalidInput, db))"

subsection \<open>Storage statistics\<close>

record storage_stats =
  totalStorage :: int
  filesTotal :: int
  versionsTotal :: int
  fileCount :: int

text \<open>
  \<^verbatim>\<open>GET /stats\<close> (ComputeStorageStats): the two sums and the count are read from
  SQLite, in this order, and added as JavaScript numbers. A statement that throws is
  answered with 500.
\<close>

definition computeStorageStats :: "database \<Rightarrow> error + storage_stats" where
  "computeStorageStats db =
     (case sql_sum (map f_file_size (files db)) of
        None \<Rightarrow> Inl InternalError
      | Some filesResult \<Rightarrow>
          (case sql_sum (map v_file_size (file_versions db)) of
             None \<Rightarrow> Inl InternalError
           | Some versionsResult \<Rightarrow>
               let filesTotal = js_or (map_option js_number filesResult) 0;
                   versionsTotal = js_or (map_option js_number versionsResult) 0;
                   totalStorage = js_add filesTotal versionsTotal
               in Inr \<lparr>totalStorage = totalStorage, filesTotal = filesTotal,
                       versionsTotal = versionsTotal,
                       fileCount = js_number (int (length (files db)))\<rparr>))"

section \<open>Downloads\<close>

subsection \<open>Node's path.resolve on POSIX\<close>






subsection \<open>The file system and the download handlers\<close>

text \<open>
  The process and its disk: the catalog, the working directory, the node at every
  absolute normalised path of the disk (a regular file with its bytes, or a directory),
  and the calls the handlers have made to \<^verbatim>\<open>fs\<close>, oldest first. The disk has no
  symbolic links.
\<close>

datatype fs_node = RegularFile "nat list" | Directory

datatype fs_call = ExistsSync jsstring | CreateReadStream jsstring

record world =
  w_db :: database
  w_cwd :: jsstring
  w_disk :: "jsstring \<rightharpoonup> fs_node"
  w_fs_calls :: "fs_call list"












text \<open>
  RestoreVersion as the process runs it: the handler works on the catalog and calls
  nothing of \<^verbatim>\<open>fs\<close>.
\<close>

definition restoreVersionRoute :: "world \<Rightarrow> jsnum \<Rightarrow> jsnum \<Rightarrow> (error + int) \<times> world" where
  "restoreVersionRoute w fileId versionNumber =
     (let (r, db') = restoreVersion (w_db w) fileId versionNumber in (r, w\<lparr>w_db := db'\<rparr>))"


section \<open>Properties of names and of catalog states\<close>

text \<open>
  A name is free of path separators and of parent-directory sequences: it holds no slash
  (47), no backslash (92), and no two dots (46) in a row.
\<close>

definition safe_name :: "jsstring \<Rightarrow> bool" where
  "safe_name s = (47 \<notin> set s \<and> 92 \<notin> set s \<and> \<not> sublist [46, 46] s)"

text \<open>
  The states the catalog can be in. SQLite keeps the primary keys distinct and, with
  \<^verbatim>\<open>foreign_keys = ON\<close>, every reference to a user, to a parent folder and to a
  version's file resolved, and \<^verbatim>\<open>UNIQUE(file_id, version_number)\<close>; the rowids come
  from the \<^verbatim>\<open>AUTOINCREMENT\<close> counters, which start at 1; the folder names are the ones
  \<^verbatim>\<open>POST /create\<close> stores, which are not empty.
\<close>

definition folders_ok :: "database \<Rightarrow> bool" where
  "folders_ok db =
     (0 \<le> folders_seq db \<and> distinct (map d_id (folders db)) \<and>
      (\<forall>r \<in> set (folders db).
         0 < d_id r \<and> d_id r \<le> folders_seq db \<and> d_name r \<noteq> [] \<and>
         d_created_by r \<in> u_id ` set (users db) \<and>
         (\<forall>p. d_parent_folder_id r = Some p \<longrightarrow> p \<in> d_id ` set (folders db))))"

definition files_ok :: "database \<Rightarrow> bool" where
  "files_ok db =
     (0 \<le> files_seq db \<and> distinct (map f_id (files db)) \<and>
      (\<forall>f \<in> set (files db).
         0 < f_id f \<and> f_id f \<le> files_seq db \<and> f_uploaded_by f \<in> u_id ` set (users db)))"

definition versions_ok :: "database \<Rightarrow> bool" where
  "versions_ok db =
     (0 \<le> file_versions_seq db \<and> distinct (map v_id (file_versions db)) \<and>
      (\<forall>v \<in> set (file_versions db).
         0 < v_id v \<and> v_id v \<le> file_versions_seq db \<and>
         v_file_id v \<in> f_id ` set (files db) \<and>
         v_uploaded_by v \<in> u_id ` set (users db)) \<and>
      distinct (map (\<lambda>v. (v_file_id v, v_version_number v)) (file_versions db)))"

definition catalog_ok :: "database \<Rightarrow> bool" where
  "catalog_ok db =
     (distinct (map u_id (users db)) \<and> folders_ok db \<and> files_ok db \<and> versions_ok db)"

text \<open>No two folders have the same parent and the same name.\<close>

definition siblings_distinct :: "database \<Rightarrow> bool" where
  "siblings_distinct db =
     distinct (map (\<lambda>r. (d_parent_folder_id r, d_name r)) (folders db))"

text \<open>
  \<open>in_subtree rows a d\<close>: the folder \<open>d\<close> is the folder \<open>a\<close> of the table or one of its
  descendants.
\<close>

inductive in_subtree :: "folder list \<Rightarrow> int \<Rightarrow> int \<Rightarrow> bool" for rows :: "folder list" and a :: int
  where
    subtree_root: "a \<in> d_id ` set rows \<Longrightarrow> in_subtree rows a a"
  | subtree_child:
      "in_subtree rows a p \<Longrightarrow> r \<in> set rows \<Longrightarrow> d_parent_folder_id r = Some p
         \<Longrightarrow> in_subtree rows a (d_id r)"

text \<open>
  \<open>subtree_level rows a d k\<close>: a chain of \<open>k\<close> parent references leads from the folder
  \<open>d\<close> up to the folder \<open>a\<close>.
\<close>

inductive subtree_level :: "folder list \<Rightarrow> int \<Rightarrow> int \<Rightarrow> nat \<Rightarrow> bool"
  for rows :: "folder list" and a :: int
  where
    level_root: "a \<in> d_id ` set rows \<Longrightarrow> subtree_level rows a a 0"
  | level_child:
      "subtree_level rows a p k \<Longrightarrow> r \<in> set rows \<Longrightarrow> d_parent_folder_id r = Some p
         \<Longrightarrow> subtree_level rows a (d_id r) (Suc k)"

text \<open>The version rows of a file, and their numbers.\<close>

definition versions_of :: "database \<Rightarrow> int \<Rightarrow> version_row list" where
  "versions_of db i = filter (\<lambda>v. v_file_id v = i) (file_versions db)"

definition version_numbers :: "database \<Rightarrow> int \<Rightarrow> int list" where
  "version_numbers db i = map v_version_number (versions_of db i)"

text \<open>
  A file as its first upload leaves it: its row has \<^verbatim>\<open>current_version\<close> 1 and there
  is no version row for it.
\<close>

definition first_upload_only :: "database \<Rightarrow> int \<Rightarrow> bool" where
  "first_upload_only db i =
     ((case select_file db i of None \<Rightarrow> False | Some f \<Rightarrow> f_current_version f = 1)
      \<and> versions_of db i = [])"

subsection \<open>Example states\<close>

text \<open>Two of the users the server creates at start, and an empty catalog with them.\<close>

definition example_users :: "user list" where
  "example_users =
     [\<lparr>u_id = 1, u_username = js ''jonah''\<rparr>, \<lparr>u_id = 2, u_username = js ''steven''\<rparr>]"

definition example_db0 :: database where
  "example_db0 = empty_database example_users"

text \<open>
  The scenario of the specification: the root folder \<^verbatim>\<open>Media\<close>, the file
  \<^verbatim>\<open>clip.mp4\<close> uploaded into it by user 1, and a new version of it uploaded by the
  same user.
\<close>

definition clip_v1 :: multer_file where
  "clip_v1 = \<lparr>m_filename = js ''clip_1700000000000_k3j9x2a.mp4'',
               m_originalname = js ''clip.mp4'',
               m_path = js ''/app/uploads/clip_1700000000000_k3j9x2a.mp4'',
               m_size = 2000000, m_mimetype = js ''video/mp4''\<rparr>"

definition clip_v2 :: multer_file where
  "clip_v2 = \<lparr>m_filename = js ''clip_1700000000500_p0q8w1z.mp4'',
               m_originalname = js ''clip.mp4'',
               m_path = js ''/app/uploads/clip_1700000000500_p0q8w1z.mp4'',
               m_size = 3000000, m_mimetype = js ''video/mp4''\<rparr>"

definition example_db1 :: database where
  "example_db1 = snd (createFolder example_db0 100 (js ''Media'') None 1)"

definition example_db2 :: database where
  "example_db2 = snd (uploadFiles example_db1 101 [clip_v1] (Some (Num 1)) 1)"

definition example_db3 :: database where
  "example_db3 = snd (addVersion example_db2 102 (Num 1) (Some clip_v2) 1)"

text \<open>The process in that state, in \<^verbatim>\<open>/app\<close>, with the two blobs on its disk.\<close>

definition example_world :: world where
  "example_world =
     \<lparr>w_db = example_db3, w_cwd = js ''/app'',
      w_disk = [js ''/'' \<mapsto> Directory, js ''/app'' \<mapsto> Directory,
                js ''/app/uploads'' \<mapsto> Directory,
                m_path clip_v1 \<mapsto> RegularFile [1, 2, 3],
                m_path clip_v2 \<mapsto> RegularFile [4, 5, 6, 7]],
      w_fs_calls = []\<rparr>"

text \<open>The uploaded file after three new versions, by users 1, 2 and 1.\<close>

definition example_db5 :: database where
  "example_db5 =
     snd (addVersions example_db2 (Num 1) [(102, clip_v2, 1), (103, clip_v1, 2), (104, clip_v2, 1)])"

text \<open>
  A folder tree: \<^verbatim>\<open>Media\<close> (1) holds \<^verbatim>\<open>raw\<close> (2), which holds \<^verbatim>\<open>takes\<close> (3), created by
  user 2; \<^verbatim>\<open>Other\<close> (4) is a second root folder; the file \<^verbatim>\<open>clip.mp4\<close> is uploaded
  into folder 3.
\<close>

definition example_tree :: database where
  "example_tree =
     (let db1 = snd (createFolder example_db0 100 (js ''Media'') None 1);
          db2 = snd (createFolder db1 101 (js ''raw'') (Some (Num 1)) 1);
          db3 = snd (createFolder db2 102 (js ''takes'') (Some (Num 2)) 2);
          db4 = snd (createFolder db3 103 (js ''Other'') None 2)
      in snd (uploadFiles db4 104 [clip_v1] (Some (Num 3)) 2))"


text \<open>
  The state after the upload and the new version, with a file of \<open>2 ^ 53\<close> bytes and a
  version of one byte; and the same state with two files of \<open>2 ^ 62\<close> bytes each.
\<close>

definition large_db :: database where
  "large_db =
     example_db3\<lparr>files := map (\<lambda>r. r\<lparr>f_file_size := 9007199254740992\<rparr>) (files example_db3),
                 file_versions := map (\<lambda>r. r\<lparr>v_file_size := 1\<rparr>) (file_versions example_db3)\<rparr>"

definition overflow_db :: database where
  "overflow_db =
     example_db3\<lparr>files :=
         concat (map (\<lambda>r. [r\<lparr>f_file_size := 4611686018427387904\<rparr>,
                           r\<lparr>f_id := 2, f_file_size := 4611686018427387904\<rparr>])
                   (files example_db3)),
       files_seq := 2\<rparr>"

text \<open>
  \<open>n\<close> folders \<^verbatim>\<open>d\<close>, each in the one before: folder 1 is a root folder and folder
  \<open>j + 1\<close> lies in folder \<open>j\<close>. All are created by user 1.
\<close>

definition chain_folder :: "nat \<Rightarrow> folder" where
  "chain_folder j =
     \<lparr>d_id = int j, d_name = js ''d'',
      d_parent_folder_id = (if j = 1 then None else Some (int j - 1)),
      d_created_by = 1, d_created_at = 100 + int j\<rparr>"

definition chain_db :: "nat \<Rightarrow> database" where
  "chain_db n =
     (empty_database example_users)\<lparr>folders := map chain_folder [1 ..< Suc n],
                                       folders_seq := int n\<rparr>"


section \<open>Verification\<close>

subsection \<open>sanitizeFilename\<close>

lemma replace_dotdot_no_dotdot: "\<not> sublist [46, 46] (replace_dotdot s)"
proof (induction s rule: replace_dotdot.induct)
  case (1 a b s)
  then show ?case
    by (cases "b # s" rule: replace_dotdot.cases) (auto simp: sublist_Cons_right)
qed (auto simp: sublist_Cons_right)

lemma set_replace_dotdot: "set (replace_dotdot s) \<subseteq> insert 95 (set s)"
  by (induction s rule: replace_dotdot.induct) auto

lemma sublist_dots_map:
  assumes "\<And>c. f c = 46 \<Longrightarrow> c = (46::nat)" and "sublist [46, 46] (map f s)"
  shows "sublist [46, 46] s"
proof -
  from assms(2) obtain ps ss where "map f s = ps @ [46, 46] @ ss"
    by (auto simp: sublist_def)
  then obtain ps' a b ss' where s: "s = ps' @ [a, b] @ ss'" and "f a = 46" "f b = 46"
    by (auto simp: map_eq_append_conv map_eq_Cons_conv append_eq_map_conv)
  with assms(1) have "a = 46" "b = 46" by auto
  with s show ?thesis by (auto simp: sublist_def)
qed

lemma js_trim_sublist: "sublist (js_trim s) s"
proof -
  let ?t = "dropWhile is_js_whitespace s"
  have "rev ?t = takeWhile is_js_whitespace (rev ?t) @ dropWhile is_js_whitespace (rev ?t)"
    by simp
  then have "?t = js_trim s @ rev (takeWhile is_js_whitespace (rev ?t))"
    unfolding js_trim_def by (metis rev_append rev_rev_ident)
  then have "prefix (js_trim s) ?t" by (metis prefixI)
  moreover have "suffix ?t s" by (rule suffix_dropWhile)
  ultimately show ?thesis
    by (meson prefix_imp_sublist suffix_imp_sublist sublist_order.order_trans)
qed

lemma set_js_trim: "set (js_trim s) \<subseteq> set s"
  using js_trim_sublist set_mono_sublist by blast

lemma sanitize_no_dotdot: "\<not> sublist [46, 46] (sanitizeFilename s)"
proof
  assume "sublist [46, 46] (sanitizeFilename s)"
  then have "sublist [46, 46] (replace_class is_reserved_char
       (replace_dotdot (replace_class is_path_separator s)))"
    unfolding sanitizeFilename_def using js_trim_sublist sublist_order.order_trans by blast
  then have "sublist [46, 46] (replace_dotdot (replace_class is_path_separator s))"
    unfolding replace_class_def by (rule sublist_dots_map[rotated]) (auto split: if_splits)
  then show False by (simp add: replace_dotdot_no_dotdot)
qed

lemma sanitize_no_separator:
  "47 \<notin> set (sanitizeFilename s)" "92 \<notin> set (sanitizeFilename s)"
proof -
  let ?a = "replace_class is_path_separator s"
  have a: "47 \<notin> set ?a \<and> 92 \<notin> set ?a"
    by (auto simp: replace_class_def is_path_separator_def)
  then have b: "47 \<notin> set (replace_dotdot ?a) \<and> 92 \<notin> set (replace_dotdot ?a)"
    using set_replace_dotdot[of ?a] by auto
  then have c: "47 \<notin> set (replace_class is_reserved_char (replace_dotdot ?a))
      \<and> 92 \<notin> set (replace_class is_reserved_char (replace_dotdot ?a))"
    by (auto simp: replace_class_def)
  then show "47 \<notin> set (sanitizeFilename s)" "92 \<notin> set (sanitizeFilename s)"
    unfolding sanitizeFilename_def using set_js_trim by blast+
qed

lemma sanitize_safe_name: "safe_name (sanitizeFilename s)"
  by (simp add: safe_name_def sanitize_no_separator sanitize_no_dotdot)

lemma sanitizeFilename_Nil: "sanitizeFilename [] = []"
  by (simp add: sanitizeFilename_def replace_class_def js_trim_def)

lemma set_sql_text: "set (sql_text s) \<subseteq> insert 65533 (set s)"
  by (induction s rule: sql_text.induct) auto

lemma sql_text_dot:
  "prefix [46] (sql_text s) \<Longrightarrow> prefix [46] s"
  by (induction s rule: sql_text.induct)
     (auto simp: is_high_surrogate_def is_low_surrogate_def split: if_splits)

lemma sql_text_dotdot_prefix:
  "prefix [46, 46] (sql_text s) \<Longrightarrow> prefix [46, 46] s"
proof (cases s rule: sql_text.cases)
  case (1 a b t)
  assume p: "prefix [46, 46] (sql_text s)"
  show ?thesis
  proof (cases "is_high_surrogate a \<and> is_low_surrogate b")
    case True
    with p 1 show ?thesis by (auto simp: is_high_surrogate_def)
  next
    case False
    with p 1 have a: "a = 46" and "prefix [46] (sql_text (b # t))"
      by (auto split: if_splits)
    then have "prefix [46] (b # t)" using sql_text_dot by blast
    with a 1 show ?thesis by auto
  qed
qed auto

lemma sql_text_no_dotdot:
  "sublist [46, 46] (sql_text s) \<Longrightarrow> sublist [46, 46] s"
proof (induction s rule: sql_text.induct)
  case (1 a b s)
  show ?case
  proof (cases "prefix [46, 46] (sql_text (a # b # s))")
    case True
    then show ?thesis using sql_text_dotdot_prefix prefix_imp_sublist by blast
  next
    case np: False
    show ?thesis
    proof (cases "is_high_surrogate a \<and> is_low_surrogate b")
      case True
      have "a \<noteq> 46" "b \<noteq> 46"
        using True by (auto simp: is_high_surrogate_def is_low_surrogate_def)
      with 1(3) True have "sublist [46, 46] (sql_text s)"
        by (auto simp: sublist_Cons_right)
      with 1(1) True have "sublist [46, 46] s" by simp
      then show ?thesis by (simp add: sublist_Cons_right)
    next
      case False
      with 1(3) np have "sublist [46, 46] (sql_text (b # s))"
        by (auto simp: sublist_Cons_right split: if_splits)
      with 1(2) False have "sublist [46, 46] (b # s)" by simp
      then show ?thesis by (simp add: sublist_Cons_right)
    qed
  qed
next
  case (2 a)
  then show ?case by (auto simp: sublist_Cons_right split: if_splits)
qed simp

lemma safe_name_sql_text: "safe_name s \<Longrightarrow> safe_name (sql_text s)"
  using set_sql_text[of s] sql_text_no_dotdot[of s] by (auto simp: safe_name_def)

lemma createFolder_inserted:
  assumes "createFolder db now name parentFolderId userId = (Inr i, db')"
  shows "\<exists>r. folders db' = folders db @ [r] \<and> d_id r = i
            \<and> d_name r = sql_text (sanitizeFilename (js_trim name))
            \<and> d_parent_folder_id r = sql_param parentFolderId \<and> d_created_by r = userId"
  using assms
  by (auto simp: createFolder_def Let_def insert_folder_def split: if_splits option.splits)

lemmas eval_strings =
  js_def js_trim_def is_js_whitespace_def sanitizeFilename_def replace_class_def
  is_reserved_char_def is_path_separator_def is_high_surrogate_def is_low_surrogate_def

lemmas eval_folders =
  example_db0_def example_users_def empty_database_def createFolder_def insert_folder_def
  select_folder_def

text \<open>
  C9. For every string \<open>s\<close>, \<open>sanitizeFilename s\<close> holds no slash, no backslash and no
  two dots in a row. Hence the name of the row a successful CreateFolder inserts, which
  is \<open>sanitizeFilename\<close> of the trimmed name as the database stores it, is free of
  them, and so is the sanitized base with which every generated storage key begins.
\<close>

theorem sanitizeFilename_no_traversal:
  "47 \<notin> set (sanitizeFilename s) \<and> 92 \<notin> set (sanitizeFilename s)
   \<and> \<not> sublist [46, 46] (sanitizeFilename s)
   \<and> (\<forall>i db'. createFolder db now name parentFolderId userId = (Inr i, db') \<longrightarrow>
         (\<exists>r. folders db' = folders db @ [r] \<and> d_id r = i
               \<and> d_name r = sql_text (sanitizeFilename (js_trim name))
               \<and> safe_name (d_name r)))
   \<and> (\<exists>base. generateUniqueFilename extname basename timestamp random originalFilename
                = base @ [95] @ timestamp @ [95] @ random @ extname originalFilename
              \<and> safe_name base)"
proof -
  have "\<exists>r. folders db' = folders db @ [r] \<and> d_id r = i
          \<and> d_name r = sql_text (sanitizeFilename (js_trim name)) \<and> safe_name (d_name r)"
    if "createFolder db now name parentFolderId userId = (Inr i, db')" for i db'
    using createFolder_inserted[OF that] safe_name_sql_text[OF sanitize_safe_name] by auto
  moreover have "\<exists>base. generateUniqueFilename extname basename timestamp random
        originalFilename = base @ [95] @ timestamp @ [95] @ random @ extname originalFilename
      \<and> safe_name base"
    unfolding generateUniqueFilename_def Let_def using sanitize_safe_name by blast
  ultimately show ?thesis
    using sanitize_no_separator sanitize_no_dotdot by blast
qed

theorem sanitizeFilename_no_traversal_witness:
  "createFolder example_db0 100 (js '' a/../b '') None 1
     = (Inr 1, example_db0\<lparr>folders :=
          [\<lparr>d_id = 1, d_name = js ''a___b'', d_parent_folder_id = None, d_created_by = 1,
            d_created_at = 100\<rparr>], folders_seq := 1\<rparr>)
   \<and> sanitizeFilename (js ''../../etc/passwd'') = js ''____etc_passwd''
   \<and> safe_name (js ''a___b'')"
proof -
  have c: "createFolder example_db0 100 (js '' a/../b '') None 1
     = (Inr 1, example_db0\<lparr>folders :=
          [\<lparr>d_id = 1, d_name = js ''a___b'', d_parent_folder_id = None, d_created_by = 1,
            d_created_at = 100\<rparr>], folders_seq := 1\<rparr>)"
    by (simp add: eval_folders eval_strings)
  have s: "sanitizeFilename (js ''../../etc/passwd'') = js ''____etc_passwd''"
    by (simp add: eval_strings)
  from sanitizeFilename_no_traversal[of "js ''../../etc/passwd''" example_db0 100
      "js '' a/../b ''" None 1]
  have "\<forall>i db'. createFolder example_db0 100 (js '' a/../b '') None 1 = (Inr i, db') \<longrightarrow>
         (\<exists>r. folders db' = folders example_db0 @ [r] \<and> d_id r = i
               \<and> d_name r = sql_text (sanitizeFilename (js_trim (js '' a/../b '')))
               \<and> safe_name (d_name r))"
    by blast
  with c have "safe_name (sql_text (sanitizeFilename (js_trim (js '' a/../b ''))))"
    by auto
  moreover have "sql_text (sanitizeFilename (js_trim (js '' a/../b ''))) = js ''a___b''"
    by (simp add: eval_strings)
  ultimately show ?thesis using c s by simp
qed

subsection \<open>The example states\<close>

lemmas eval_files =
  clip_v1_def clip_v2_def uploadFiles_def insert_file_def select_file_def addVersion_def
  insert_version_def update_current_version_def select_version_def

lemma example_db1_eq:
  "example_db1 = \<lparr>users = example_users,
      folders = [\<lparr>d_id = 1, d_name = js ''Media'', d_parent_folder_id = None,
                  d_created_by = 1, d_created_at = 100\<rparr>],
      files = [], file_versions = [], folders_seq = 1, files_seq = 0,
      file_versions_seq = 0\<rparr>"
  by (simp add: example_db1_def eval_folders eval_strings)

lemma example_db2_eq:
  "example_db2 = \<lparr>users = example_users,
      folders = [\<lparr>d_id = 1, d_name = js ''Media'', d_parent_folder_id = None,
                  d_created_by = 1, d_created_at = 100\<rparr>],
      files = [\<lparr>f_id = 1, f_filename = m_filename clip_v1,
                 f_original_filename = js ''clip.mp4'', f_file_path = m_path clip_v1,
                 f_file_size = 2000000, f_mime_type = js ''video/mp4'', f_uploaded_by = 1,
                 f_uploaded_at = 101, f_folder_id = Some 1, f_current_version = 1\<rparr>],
      file_versions = [], folders_seq = 1, files_seq = 1, file_versions_seq = 0\<rparr>"
  by (simp add: example_db2_def example_db1_eq example_users_def eval_files
      select_folder_def eval_strings)

lemma example_db3_eq:
  "example_db3 = \<lparr>users = example_users,
      folders = [\<lparr>d_id = 1, d_name = js ''Media'', d_parent_folder_id = None,
                  d_created_by = 1, d_created_at = 100\<rparr>],
      files = [\<lparr>f_id = 1, f_filename = m_filename clip_v1,
                 f_original_filename = js ''clip.mp4'', f_file_path = m_path clip_v1,
                 f_file_size = 2000000, f_mime_type = js ''video/mp4'', f_uploaded_by = 1,
                 f_uploaded_at = 101, f_folder_id = Some 1, f_current_version = 2\<rparr>],
      file_versions = [\<lparr>v_id = 1, v_file_id = 1, v_version_number = 2,
                 v_file_path = m_path clip_v2, v_file_size = 3000000, v_uploaded_by = 1,
                 v_uploaded_at = 102\<rparr>],
      folders_seq = 1, files_seq = 1, file_versions_seq = 1\<rparr>"
  by (simp add: example_db3_def example_db2_eq example_users_def eval_files)

subsection \<open>Storage statistics\<close>

lemma sql_sum_from_nonneg:
  "\<forall>x \<in> set xs. 0 \<le> x \<Longrightarrow> 0 \<le> acc \<Longrightarrow> acc + sum_list xs < 2 ^ 63
     \<Longrightarrow> sql_sum_from acc xs = Some (acc + sum_list xs)"
proof (induction xs arbitrary: acc)
  case Nil
  then show ?case by simp
next
  case (Cons x xs)
  have "0 \<le> sum_list xs" using Cons.prems(1) by (simp add: sum_list_nonneg)
  moreover have "0 \<le> x" using Cons.prems(1) by simp
  ultimately have "int64 (acc + x)"
    using Cons.prems(2,3) by (simp add: int64_def)
  moreover have "sql_sum_from (acc + x) xs = Some (acc + x + sum_list xs)"
    using Cons.prems \<open>0 \<le> x\<close> by (intro Cons.IH) (simp_all add: add.assoc)
  ultimately show ?case by (simp add: add.assoc)
qed

lemma bit_length_le: "n < 2 ^ k \<Longrightarrow> bit_length n \<le> k"
proof (induction k arbitrary: n)
  case 0
  then show ?case by (simp add: bit_length.simps)
next
  case (Suc k)
  show ?case
  proof (cases "n = 0")
    case True
    then show ?thesis by (simp add: bit_length.simps)
  next
    case False
    have "n div 2 < 2 ^ k" using Suc.prems by simp
    then have "bit_length (n div 2) \<le> k" by (rule Suc.IH)
    with False show ?thesis by (subst bit_length.simps) simp
  qed
qed

lemma js_number_small: "\<bar>n\<bar> < 2 ^ 53 \<Longrightarrow> js_number n = n"
proof -
  assume "\<bar>n\<bar> < 2 ^ 53"
  then have "nat \<bar>n\<bar> < 2 ^ 53" by (simp add: nat_less_iff)
  then have "bit_length (nat \<bar>n\<bar>) \<le> 53" by (rule bit_length_le)
  then show ?thesis by (simp add: js_number_def Let_def)
qed

lemma js_or_sum:
  "\<forall>x \<in> set xs. 0 \<le> x \<Longrightarrow> sum_list xs < 2 ^ 53 \<Longrightarrow>
     \<exists>t. sql_sum xs = Some t \<and> js_or (map_option js_number t) 0 = sum_list xs"
proof -
  assume nn: "\<forall>x \<in> set xs. 0 \<le> x" and b: "sum_list xs < 2 ^ 53"
  have "0 \<le> sum_list xs" using nn by (simp add: sum_list_nonneg)
  with b have small: "js_number (sum_list xs) = sum_list xs"
    by (intro js_number_small) simp
  have "(2::int) ^ 53 \<le> 2 ^ 63" by simp
  with b have "0 + sum_list xs < 2 ^ 63" by linarith
  with nn have "sql_sum_from 0 xs = Some (0 + sum_list xs)"
    by (intro sql_sum_from_nonneg) simp_all
  then show ?thesis using small by (cases xs) (simp_all add: sql_sum_def)
qed

text \<open>
  C8, as the code has it. For every catalog state in which no size is negative, the sum
  of the sizes of all file rows and of all version rows is below \<open>2 ^ 53\<close>, and there are
  fewer than \<open>2 ^ 53\<close> file rows, ComputeStorageStats succeeds and answers with
  \<open>filesTotal\<close> the sum of the sizes of all file rows, \<open>versionsTotal\<close> the sum of the sizes
  of all version rows, \<open>totalStorage\<close> the sum of the two, and \<open>fileCount\<close> the number of
  file rows.
\<close>

theorem computeStorageStats_exact_sums:
  assumes "\<forall>r \<in> set (files db). 0 \<le> f_file_size r"
    and "\<forall>r \<in> set (file_versions db). 0 \<le> v_file_size r"
    and "sum_list (map f_file_size (files db)) + sum_list (map v_file_size (file_versions db))
           < 2 ^ 53"
    and "int (length (files db)) < 2 ^ 53"
  shows "computeStorageStats db
           = Inr \<lparr>totalStorage = sum_list (map f_file_size (files db))
                                    + sum_list (map v_file_size (file_versions db)),
                  filesTotal = sum_list (map f_file_size (files db)),
                  versionsTotal = sum_list (map v_file_size (file_versions db)),
                  fileCount = int (length (files db))\<rparr>"
proof -
  let ?f = "map f_file_size (files db)" and ?v = "map v_file_size (file_versions db)"
  have nf: "\<forall>x \<in> set ?f. 0 \<le> x" and nv: "\<forall>x \<in> set ?v. 0 \<le> x"
    using assms(1,2) by auto
  have pf: "0 \<le> sum_list ?f"
    by (rule sum_list_nonneg) (use assms(1) in auto)
  have pv: "0 \<le> sum_list ?v"
    by (rule sum_list_nonneg) (use assms(2) in auto)
  from pf pv assms(3) have bf: "sum_list ?f < 2 ^ 53" and bv: "sum_list ?v < 2 ^ 53"
    by linarith+
  obtain tf where tf: "sql_sum ?f = Some tf" "js_or (map_option js_number tf) 0 = sum_list ?f"
    using js_or_sum[OF nf bf] by blast
  obtain tv where tv: "sql_sum ?v = Some tv" "js_or (map_option js_number tv) 0 = sum_list ?v"
    using js_or_sum[OF nv bv] by blast
  have total: "js_add (sum_list ?f) (sum_list ?v) = sum_list ?f + sum_list ?v"
    unfolding js_add_def using pf pv assms(3) by (intro js_number_small) simp
  have count: "js_number (int (length (files db))) = int (length (files db))"
    using assms(4) by (intro js_number_small) simp
  show ?thesis
    unfolding computeStorageStats_def by (simp add: tf tv total count Let_def)
qed

theorem computeStorageStats_exact_sums_witness:
  "computeStorageStats example_db3
     = Inr \<lparr>totalStorage = 5000000, filesTotal = 2000000, versionsTotal = 3000000,
            fileCount = 1\<rparr>"
  using computeStorageStats_exact_sums[of example_db3]
  by (simp add: example_db3_eq)

lemma bit_length_numeral [simp]:
  "bit_length (numeral k) = Suc (bit_length (numeral k div 2))"
  by (subst bit_length.simps) simp

lemma bit_length_0 [simp]: "bit_length 0 = 0"
  by (simp add: bit_length.simps)

lemma bit_length_1 [simp]: "bit_length (Suc 0) = 1"
  by (subst bit_length.simps) simp

theorem computeStorageStats_rounds:
  "computeStorageStats large_db
     = Inr \<lparr>totalStorage = 9007199254740992, filesTotal = 9007199254740992,
            versionsTotal = 1, fileCount = 1\<rparr>
   \<and> sum_list (map f_file_size (files large_db))
       + sum_list (map v_file_size (file_versions large_db)) = 9007199254740993
   \<and> computeStorageStats overflow_db = Inl InternalError
   \<and> sum_list (map f_file_size (files overflow_db)) = 9223372036854775808"
  by (simp add: large_db_def overflow_db_def example_db3_eq computeStorageStats_def
      sql_sum_def int64_def js_add_def js_number_def Let_def)

subsection \<open>RestoreVersion\<close>

lemma find_update_rows:
  "find (\<lambda>f. f_id f = j) (map (\<lambda>f. if f_id f = i then f\<lparr>f_current_version := n\<rparr> else f) xs)
     = map_option (\<lambda>f. if f_id f = i then f\<lparr>f_current_version := n\<rparr> else f)
         (find (\<lambda>f. f_id f = j) xs)"
  by (induction xs) auto

lemma select_file_update:
  "select_file (update_current_version db n i) j
     = map_option (\<lambda>f. if f_id f = i then f\<lparr>f_current_version := n\<rparr> else f)
         (select_file db j)"
  by (simp add: select_file_def update_current_version_def find_update_rows)

lemma select_file_id: "select_file db i = Some f \<Longrightarrow> f_id f = i \<and> f \<in> set (files db)"
  by (auto simp: select_file_def find_Some_iff)

lemma update_rows:
  "list_all2 (\<lambda>f f'. f' = (if f_id f = i then f\<lparr>f_current_version := n\<rparr> else f))
     (files db) (files (update_current_version db n i))"
  by (simp add: update_current_version_def list_all2_map2 list_all2_same)

text \<open>
  C3. RestoreVersion fails with NotFound, and changes nothing, when the file or the
  version row is absent. When both exist it answers with the version number, and in the
  state it leaves: every file row with that id has \<^verbatim>\<open>current_version\<close> set to the
  number and its other columns as they were (filename, stored name and path, size, mime
  type, folder, uploader, upload time), every other file row, every user, folder and
  version row and the rowid counters are as they were, and the disk and the list of
  file-system calls are as they were: nothing is read, written or moved.
\<close>

theorem restoreVersion_frame:
  "(select_file (w_db w) i = None \<or> select_version (w_db w) i n = None \<longrightarrow>
      restoreVersionRoute w (Num i) (Num n) = (Inl NotFound, w))
   \<and> (\<forall>f v. select_file (w_db w) i = Some f \<and> select_version (w_db w) i n = Some v \<longrightarrow>
        (\<exists>w'. restoreVersionRoute w (Num i) (Num n) = (Inr n, w')
           \<and> select_file (w_db w') i = Some (f\<lparr>f_current_version := n\<rparr>)
           \<and> list_all2 (\<lambda>f f'. f' = (if f_id f = i then f\<lparr>f_current_version := n\<rparr> else f))
                (files (w_db w)) (files (w_db w'))
           \<and> file_versions (w_db w') = file_versions (w_db w)
           \<and> users (w_db w') = users (w_db w) \<and> folders (w_db w') = folders (w_db w)
           \<and> folders_seq (w_db w') = folders_seq (w_db w)
           \<and> files_seq (w_db w') = files_seq (w_db w)
           \<and> file_versions_seq (w_db w') = file_versions_seq (w_db w)
           \<and> w_disk w' = w_disk w \<and> w_fs_calls w' = w_fs_calls w \<and> w_cwd w' = w_cwd w))"
proof -
  have a: "restoreVersionRoute w (Num i) (Num n) = (Inl NotFound, w)"
    if "select_file (w_db w) i = None \<or> select_version (w_db w) i n = None"
    using that by (auto simp: restoreVersionRoute_def restoreVersion_def split: option.splits)
  have b: "\<exists>w'. restoreVersionRoute w (Num i) (Num n) = (Inr n, w')
           \<and> select_file (w_db w') i = Some (f\<lparr>f_current_version := n\<rparr>)
           \<and> list_all2 (\<lambda>f f'. f' = (if f_id f = i then f\<lparr>f_current_version := n\<rparr> else f))
                (files (w_db w)) (files (w_db w'))
           \<and> file_versions (w_db w') = file_versions (w_db w)
           \<and> users (w_db w') = users (w_db w) \<and> folders (w_db w') = folders (w_db w)
           \<and> folders_seq (w_db w') = folders_seq (w_db w)
           \<and> files_seq (w_db w') = files_seq (w_db w)
           \<and> file_versions_seq (w_db w') = file_versions_seq (w_db w)
           \<and> w_disk w' = w_disk w \<and> w_fs_calls w' = w_fs_calls w \<and> w_cwd w' = w_cwd w"
    if f: "select_file (w_db w) i = Some f" and v: "select_version (w_db w) i n = Some v"
    for f v
  proof -
    let ?w = "w\<lparr>w_db := update_current_version (w_db w) n i\<rparr>"
    have r: "restoreVersionRoute w (Num i) (Num n) = (Inr n, ?w)"
      using f v by (simp add: restoreVersionRoute_def restoreVersion_def)
    have s: "select_file (w_db ?w) i = Some (f\<lparr>f_current_version := n\<rparr>)"
      using f select_file_id[OF f] by (simp add: select_file_update)
    have l: "list_all2 (\<lambda>f f'. f' = (if f_id f = i then f\<lparr>f_current_version := n\<rparr> else f))
                (files (w_db w)) (files (w_db ?w))"
      using update_rows[of i n "w_db w"] by simp
    show ?thesis
      using r s l by (simp add: update_current_version_def)
  qed
  from a b show ?thesis by blast
qed

theorem restoreVersion_frame_witness:
  "select_file (w_db example_world) 1 \<noteq> None
   \<and> select_version (w_db example_world) 1 2 \<noteq> None
   \<and> select_version (w_db example_world) 1 1 = None
   \<and> restoreVersionRoute example_world (Num 1) (Num 1) = (Inl NotFound, example_world)
   \<and> fst (restoreVersionRoute example_world (Num 1) (Num 2)) = Inr 2
   \<and> w_disk (snd (restoreVersionRoute example_world (Num 1) (Num 2))) = w_disk example_world
   \<and> w_fs_calls (snd (restoreVersionRoute example_world (Num 1) (Num 2))) = []
   \<and> file_versions (w_db (snd (restoreVersionRoute example_world (Num 1) (Num 2))))
       = file_versions example_db3"
proof -
  have f: "select_file (w_db example_world) 1 = Some (hd (files example_db3))"
    by (simp add: example_world_def example_db3_eq select_file_def)
  have v: "select_version (w_db example_world) 1 2 = Some (hd (file_versions example_db3))"
    by (simp add: example_world_def example_db3_eq select_version_def)
  have n: "select_version (w_db example_world) 1 1 = None"
    by (simp add: example_world_def example_db3_eq select_version_def)
  have c: "w_fs_calls example_world = []"
    by (simp add: example_world_def)
  from restoreVersion_frame[of example_world 1 1] n
  have "restoreVersionRoute example_world (Num 1) (Num 1) = (Inl NotFound, example_world)"
    by blast
  moreover from restoreVersion_frame[of example_world 1 2] f v
  obtain w' where "restoreVersionRoute example_world (Num 1) (Num 2) = (Inr 2, w')"
    "w_disk w' = w_disk example_world" "w_fs_calls w' = w_fs_calls example_world"
    "file_versions (w_db w') = file_versions (w_db example_world)"
    by blast
  ultimately show ?thesis using f v n c by (simp add: example_world_def)
qed

subsection \<open>ListVersions\<close>

lemma join_one_user:
  assumes "distinct (map u_id us)" and "k \<in> u_id ` set us"
  shows "map fst (concat (map (\<lambda>u. if k = u_id u then [(v, u)] else []) us)) = [v]"
  using assms by (induction us) (auto simp: image_iff)

lemma join_versions_users:
  assumes "distinct (map u_id us)" and "\<forall>v \<in> set vs. v_uploaded_by v \<in> u_id ` set us"
  shows "map fst [(v, u). v \<leftarrow> vs, u \<leftarrow> us, v_uploaded_by v = u_id u, v_file_id v = i]
           = filter (\<lambda>v. v_file_id v = i) vs"
  using assms(2)
proof (induction vs)
  case Nil
  then show ?case by simp
next
  case (Cons v vs)
  have eq: "(\<lambda>u. if v_uploaded_by v = u_id u then if v_file_id v = i then [(v, u)] else [] else [])
      = (\<lambda>u. if v_file_id v = i then (if v_uploaded_by v = u_id u then [(v, u)] else []) else [])"
    by (auto simp: fun_eq_iff)
  from Cons.prems have k: "v_uploaded_by v \<in> u_id ` set us" by simp
  show ?case
  proof (cases "v_file_id v = i")
    case True
    then show ?thesis
      using Cons join_one_user[OF assms(1) k, of v] by (simp add: eq)
  next
    case False
    then show ?thesis using Cons by (simp add: eq)
  qed
qed

lemma join_versions_catalog:
  assumes "catalog_ok db"
  shows "map fst [(v, u). v \<leftarrow> file_versions db, u \<leftarrow> users db,
                     v_uploaded_by v = u_id u, v_file_id v = i] = versions_of db i"
  unfolding versions_of_def
  by (rule join_versions_users) (use assms in \<open>auto simp: catalog_ok_def versions_ok_def\<close>)

lemma versions_of_distinct:
  assumes "catalog_ok db"
  shows "distinct (version_numbers db i)"
proof -
  from assms have d: "distinct (map (\<lambda>v. (v_file_id v, v_version_number v)) (file_versions db))"
    by (simp add: catalog_ok_def versions_ok_def)
  then have "distinct (map (\<lambda>v. (v_file_id v, v_version_number v)) (versions_of db i))"
    unfolding versions_of_def by (rule distinct_map_filter)
  moreover have "map (\<lambda>v. (v_file_id v, v_version_number v)) (versions_of db i)
      = map (\<lambda>n. (i, n)) (version_numbers db i)"
    by (simp add: versions_of_def version_numbers_def)
  ultimately show ?thesis by (simp add: distinct_map)
qed

lemma sorted_desc_neg:
  fixes k :: "'a \<Rightarrow> int"
  assumes "sorted (map (\<lambda>x. - k x) ys)"
  shows "sorted (rev (map k ys))"
proof -
  have "sorted (rev (map k ys)) = sorted_wrt (\<lambda>x y. k y \<le> k x) ys"
    by (simp add: sorted_wrt_rev sorted_wrt_map)
  also have "\<dots> = sorted (map (\<lambda>x. - k x) ys)"
    by (simp add: sorted_wrt_map)
  finally show ?thesis using assms by simp
qed

text \<open>The answer of ListVersions for an existing file, in terms of the joined rows.\<close>

lemma listVersions_numbers:
  assumes ok: "catalog_ok db" and f: "select_file db i = Some f"
  shows "\<exists>r. listVersions db (Num i) = Inr r
           \<and> vr_currentVersion r = f_current_version f
           \<and> sorted (rev (map vi_versionNumber (vr_versions r)))
           \<and> distinct (map vi_versionNumber (vr_versions r))
           \<and> set (map vi_versionNumber (vr_versions r)) = set (version_numbers db i)
           \<and> length (vr_versions r) = length (versions_of db i)
           \<and> (\<forall>e \<in> set (vr_versions r).
                 vi_isCurrent e = (vi_versionNumber e = f_current_version f))"
proof -
  define rows where "rows = [(v, u). v \<leftarrow> file_versions db, u \<leftarrow> users db,
                     v_uploaded_by v = u_id u, v_file_id v = i]"
  define srt where "srt = sort_key (\<lambda>(v, u). - v_version_number v) rows"
  define mk :: "version_row \<times> user \<Rightarrow> version_info" where "mk = (\<lambda>(v, u).
       \<lparr>vi_id = v_id v, vi_versionNumber = v_version_number v,
        vi_fileSize = v_file_size v, vi_uploadedAt = v_uploaded_at v,
        vi_uploadedBy = u_username u,
        vi_isCurrent = (v_version_number v = f_current_version f)\<rparr>)"
  define r where "r = \<lparr>vr_fileId = f_id f, vr_filename = f_original_filename f,
       vr_currentVersion = f_current_version f, vr_versions = map mk srt\<rparr>"
  have lv: "listVersions db (Num i) = Inr r"
    using f by (simp add: listVersions_def Let_def r_def mk_def srt_def rows_def)
  have fst_rows: "map fst rows = versions_of db i"
    unfolding rows_def by (rule join_versions_catalog[OF ok])
  have nums: "map vi_versionNumber (map mk srt) = map (\<lambda>p. v_version_number (fst p)) srt"
    by (auto simp: mk_def split: prod.splits)
  have key: "(\<lambda>(v, u). - v_version_number v) = (\<lambda>p. - v_version_number (fst p))"
    by (auto simp: fun_eq_iff)
  have rows_nums: "map (\<lambda>p. v_version_number (fst p)) rows = version_numbers db i"
    using fst_rows by (simp add: version_numbers_def flip: map_map[unfolded comp_def])
  have "sorted (map (\<lambda>p. - v_version_number (fst p)) srt)"
    unfolding srt_def key by (rule sorted_sort_key)
  then have s: "sorted (rev (map (\<lambda>p. v_version_number (fst p)) srt))"
    by (rule sorted_desc_neg)
  have dr: "distinct (map (\<lambda>p. v_version_number (fst p)) rows)"
    using versions_of_distinct[OF ok, of i] rows_nums by simp
  then have d: "distinct (map (\<lambda>p. v_version_number (fst p)) srt)"
    by (simp add: distinct_map srt_def)
  have st: "set (map (\<lambda>p. v_version_number (fst p)) srt) = set (version_numbers db i)"
  proof -
    have "set (map (\<lambda>p. v_version_number (fst p)) srt)
        = set (map (\<lambda>p. v_version_number (fst p)) rows)"
      by (simp add: srt_def)
    then show ?thesis by (simp only: rows_nums)
  qed
  have len: "length (map mk srt) = length (versions_of db i)"
  proof -
    have "length (map mk srt) = length (map fst rows)" by (simp add: srt_def)
    then show ?thesis by (simp only: fst_rows)
  qed
  have cur: "\<forall>e \<in> set (map mk srt). vi_isCurrent e = (vi_versionNumber e = f_current_version f)"
    by (auto simp: mk_def)
  have vs: "vr_versions r = map mk srt" "vr_currentVersion r = f_current_version f"
    by (simp_all add: r_def)
  have "sorted (rev (map vi_versionNumber (vr_versions r)))"
    "distinct (map vi_versionNumber (vr_versions r))"
    "set (map vi_versionNumber (vr_versions r)) = set (version_numbers db i)"
    using s d st by (simp_all only: vs nums)
  moreover have "length (vr_versions r) = length (versions_of db i)"
    "\<forall>e \<in> set (vr_versions r). vi_isCurrent e = (vi_versionNumber e = f_current_version f)"
    using len cur by (simp_all only: vs)
  ultimately show ?thesis
    using lv vs(2) by blast
qed

lemma filter_unique_key:
  assumes "distinct (map g xs)" and "n \<in> set (map g xs)"
  shows "\<exists>e. filter (\<lambda>y. g y = n) xs = [e] \<and> g e = n"
  using assms
proof (induction xs)
  case Nil
  then show ?case by simp
next
  case (Cons x xs)
  show ?case
  proof (cases "g x = n")
    case True
    from Cons.prems(1) have "g x \<notin> g ` set xs" by simp
    then have "\<forall>y \<in> set xs. g y \<noteq> g x" by (metis imageI)
    with True have "\<forall>y \<in> set xs. g y \<noteq> n" by simp
    then have "filter (\<lambda>y. g y = n) xs = []" by (simp add: filter_empty_conv)
    with True show ?thesis by simp
  next
    case False
    with Cons show ?thesis by auto
  qed
qed

lemma update_rows_ids:
  "map f_id (map (\<lambda>f. if f_id f = i then f\<lparr>f_current_version := n\<rparr> else f) fs) = map f_id fs"
  by (induction fs) auto

lemma update_rows_ball:
  assumes "\<forall>f \<in> set fs. P (f_id f) (f_uploaded_by f)"
  shows "\<forall>f \<in> set (map (\<lambda>f. if f_id f = i then f\<lparr>f_current_version := n\<rparr> else f) fs).
           P (f_id f) (f_uploaded_by f)"
  using assms by (induction fs) auto

lemma files_ok_update_current_version:
  assumes "files_ok db"
  shows "files_ok (update_current_version db n i)"
proof -
  let ?fs = "map (\<lambda>f. if f_id f = i then f\<lparr>f_current_version := n\<rparr> else f) (files db)"
  have ids: "map f_id ?fs = map f_id (files db)" by (rule update_rows_ids)
  from assms have "\<forall>f \<in> set (files db). 0 < f_id f \<and> f_id f \<le> files_seq db
      \<and> f_uploaded_by f \<in> u_id ` set (users db)"
    by (simp add: files_ok_def)
  then have ball: "\<forall>f \<in> set ?fs. 0 < f_id f \<and> f_id f \<le> files_seq db
      \<and> f_uploaded_by f \<in> u_id ` set (users db)"
    by (rule update_rows_ball)
  from assms have "distinct (map f_id ?fs)" "0 \<le> files_seq db"
    by (simp_all only: ids files_ok_def)
  with ball show ?thesis
    by (simp add: files_ok_def update_current_version_def)
qed

lemma update_current_version_fields [simp]:
  "users (update_current_version db n i) = users db"
  "folders (update_current_version db n i) = folders db"
  "file_versions (update_current_version db n i) = file_versions db"
  "folders_seq (update_current_version db n i) = folders_seq db"
  "files_seq (update_current_version db n i) = files_seq db"
  "file_versions_seq (update_current_version db n i) = file_versions_seq db"
  by (simp_all add: update_current_version_def)

lemma files_update_current_version:
  "files (update_current_version db n i)
     = map (\<lambda>f. if f_id f = i then f\<lparr>f_current_version := n\<rparr> else f) (files db)"
  by (simp add: update_current_version_def)

lemma file_ids_update_current_version:
  "f_id ` set (files (update_current_version db n i)) = f_id ` set (files db)"
proof -
  have "f_id ` set (files (update_current_version db n i))
      = set (map f_id (files (update_current_version db n i)))"
    by (simp only: set_map)
  also have "\<dots> = set (map f_id (files db))"
    by (simp only: files_update_current_version update_rows_ids)
  finally show ?thesis by (simp only: set_map)
qed

lemma catalog_ok_update_current_version:
  assumes "catalog_ok db"
  shows "catalog_ok (update_current_version db n i)"
proof -
  have "versions_ok (update_current_version db n i) = versions_ok db"
    by (simp add: versions_ok_def file_ids_update_current_version)
  moreover have "folders_ok (update_current_version db n i) = folders_ok db"
    by (simp add: folders_ok_def)
  ultimately show ?thesis
    using assms files_ok_update_current_version[of db n i] by (simp add: catalog_ok_def)
qed

lemma versions_of_update [simp]:
  "versions_of (update_current_version db n i) j = versions_of db j"
  by (simp add: versions_of_def)

lemma find_Some_mem: "find P xs = Some x \<Longrightarrow> P x \<and> x \<in> set xs"
  by (induction xs) (auto split: if_splits)

lemma select_version_numbers:
  "select_version db i n = Some v \<Longrightarrow> n \<in> set (version_numbers db i)"
  unfolding select_version_def version_numbers_def versions_of_def
  by (drule find_Some_mem) force

lemma restoreVersion_Inr:
  assumes "restoreVersion db (Num i) (Num n) = (Inr m, db')"
  shows "\<exists>f v. select_file db i = Some f \<and> select_version db i n = Some v \<and> m = n
            \<and> db' = update_current_version db n i"
  using assms by (auto simp: restoreVersion_def split: option.splits)

lemma listVersions_after_restore:
  assumes ok: "catalog_ok db" and r: "restoreVersion db (Num i) (Num n) = (Inr m, db')"
  shows "\<exists>r e. listVersions db' (Num i) = Inr r \<and> vr_currentVersion r = n
            \<and> filter vi_isCurrent (vr_versions r) = [e] \<and> vi_versionNumber e = n"
proof -
  from restoreVersion_Inr[OF r] obtain f v where f: "select_file db i = Some f"
    and v: "select_version db i n = Some v" and db': "db' = update_current_version db n i"
    by blast
  have ok': "catalog_ok db'" using ok db' by (simp add: catalog_ok_update_current_version)
  have f': "select_file db' i = Some (f\<lparr>f_current_version := n\<rparr>)"
    using f select_file_id[OF f] by (simp add: db' select_file_update)
  from listVersions_numbers[OF ok' f'] obtain r where lv: "listVersions db' (Num i) = Inr r"
    and c: "vr_currentVersion r = n"
    and d: "distinct (map vi_versionNumber (vr_versions r))"
    and st: "set (map vi_versionNumber (vr_versions r)) = set (version_numbers db' i)"
    and cur: "\<forall>e \<in> set (vr_versions r). vi_isCurrent e = (vi_versionNumber e = n)"
    by auto
  have "n \<in> set (map vi_versionNumber (vr_versions r))"
    using st select_version_numbers[OF v] by (simp add: db' version_numbers_def)
  from filter_unique_key[OF d this] obtain e where
    e: "filter (\<lambda>y. vi_versionNumber y = n) (vr_versions r) = [e]" "vi_versionNumber e = n"
    by blast
  have "filter vi_isCurrent (vr_versions r) = filter (\<lambda>y. vi_versionNumber y = n) (vr_versions r)"
    using cur by (intro filter_cong) auto
  with e lv c show ?thesis by auto
qed

lemma restoreVersion_succeeds:
  assumes "select_file db i = Some f" and "select_version db i n = Some v"
  shows "restoreVersion db (Num i) (Num n) = (Inr n, update_current_version db n i)"
  using assms by (simp add: restoreVersion_def)

text \<open>
  C6. In a catalog state, for an existing file, ListVersions answers with one entry for
  each version row of the file, by version number descending, each flagged current when
  its number is the file's current version. RestoreVersion succeeds for a version that
  has a row, and after a successful RestoreVersion of version \<open>n\<close>, ListVersions answers
  with exactly one entry flagged current, and it is version \<open>n\<close>.
\<close>

theorem listVersions_descending_current:
  assumes "catalog_ok db"
  shows "(\<forall>f. select_file db i = Some f \<longrightarrow>
            (\<exists>r. listVersions db (Num i) = Inr r
               \<and> sorted (rev (map vi_versionNumber (vr_versions r)))
               \<and> distinct (map vi_versionNumber (vr_versions r))
               \<and> set (map vi_versionNumber (vr_versions r)) = set (version_numbers db i)
               \<and> (\<forall>e \<in> set (vr_versions r).
                     vi_isCurrent e = (vi_versionNumber e = f_current_version f))))
       \<and> (\<forall>f v. select_file db i = Some f \<and> select_version db i n = Some v \<longrightarrow>
            (\<exists>db'. restoreVersion db (Num i) (Num n) = (Inr n, db')))
       \<and> (\<forall>m db'. restoreVersion db (Num i) (Num n) = (Inr m, db') \<longrightarrow>
            (\<exists>r e. listVersions db' (Num i) = Inr r
               \<and> filter vi_isCurrent (vr_versions r) = [e] \<and> vi_versionNumber e = n))"
proof (intro conjI allI impI)
  fix f assume "select_file db i = Some f"
  from listVersions_numbers[OF assms this]
  show "\<exists>r. listVersions db (Num i) = Inr r
               \<and> sorted (rev (map vi_versionNumber (vr_versions r)))
               \<and> distinct (map vi_versionNumber (vr_versions r))
               \<and> set (map vi_versionNumber (vr_versions r)) = set (version_numbers db i)
               \<and> (\<forall>e \<in> set (vr_versions r).
                     vi_isCurrent e = (vi_versionNumber e = f_current_version f))"
    by blast
next
  fix f v assume "select_file db i = Some f \<and> select_version db i n = Some v"
  then show "\<exists>db'. restoreVersion db (Num i) (Num n) = (Inr n, db')"
    using restoreVersion_succeeds by blast
next
  fix m db' assume "restoreVersion db (Num i) (Num n) = (Inr m, db')"
  from listVersions_after_restore[OF assms this]
  show "\<exists>r e. listVersions db' (Num i) = Inr r
               \<and> filter vi_isCurrent (vr_versions r) = [e] \<and> vi_versionNumber e = n"
    by blast
qed

lemma example_db5_eq:
  "example_db5 = \<lparr>users = example_users,
      folders = [\<lparr>d_id = 1, d_name = js ''Media'', d_parent_folder_id = None,
                  d_created_by = 1, d_created_at = 100\<rparr>],
      files = [\<lparr>f_id = 1, f_filename = m_filename clip_v1,
                 f_original_filename = js ''clip.mp4'', f_file_path = m_path clip_v1,
                 f_file_size = 2000000, f_mime_type = js ''video/mp4'', f_uploaded_by = 1,
                 f_uploaded_at = 101, f_folder_id = Some 1, f_current_version = 4\<rparr>],
      file_versions =
        [\<lparr>v_id = 1, v_file_id = 1, v_version_number = 2,
           v_file_path = m_path clip_v2, v_file_size = 3000000, v_uploaded_by = 1,
           v_uploaded_at = 102\<rparr>,
         \<lparr>v_id = 2, v_file_id = 1, v_version_number = 3,
           v_file_path = m_path clip_v1, v_file_size = 2000000, v_uploaded_by = 2,
           v_uploaded_at = 103\<rparr>,
         \<lparr>v_id = 3, v_file_id = 1, v_version_number = 4,
           v_file_path = m_path clip_v2, v_file_size = 3000000, v_uploaded_by = 1,
           v_uploaded_at = 104\<rparr>],
      folders_seq = 1, files_seq = 1, file_versions_seq = 3\<rparr>"
  by (simp add: example_db5_def example_db2_eq example_users_def eval_files)

lemma catalog_ok_example_db5: "catalog_ok example_db5"
  by (simp add: example_db5_eq example_users_def catalog_ok_def folders_ok_def files_ok_def
      versions_ok_def js_def)

theorem listVersions_descending_current_witness:
  "catalog_ok example_db5
   \<and> (case listVersions example_db5 (Num 1) of
        Inl e \<Rightarrow> False
      | Inr r \<Rightarrow> map (\<lambda>e. (vi_versionNumber e, vi_isCurrent e)) (vr_versions r)
                  = [(4, True), (3, False), (2, False)])
   \<and> fst (restoreVersion example_db5 (Num 1) (Num 3)) = Inr 3
   \<and> (case listVersions (snd (restoreVersion example_db5 (Num 1) (Num 3))) (Num 1) of
        Inl e \<Rightarrow> False
      | Inr r \<Rightarrow> map (\<lambda>e. (vi_versionNumber e, vi_isCurrent e)) (vr_versions r)
                  = [(4, False), (3, True), (2, False)])"
  using listVersions_descending_current[OF catalog_ok_example_db5, of 1 3]
  by (simp add: catalog_ok_example_db5)
     (simp add: example_db5_eq example_users_def listVersions_def restoreVersion_def
        select_file_def select_version_def update_current_version_def)

subsection \<open>First upload\<close>

lemma insert_file_Some:
  assumes "insert_file db now fname orig path sz mime folder uid = Some db'"
  shows "files db' = files db @
           [\<lparr>f_id = files_seq db + 1, f_filename = fname, f_original_filename = orig,
             f_file_path = path, f_file_size = sz, f_mime_type = mime,
             f_uploaded_by = uid, f_uploaded_at = now, f_folder_id = folder,
             f_current_version = 1\<rparr>]"
    and "files_seq db' = files_seq db + 1"
    and "users db' = users db" and "folders db' = folders db"
    and "file_versions db' = file_versions db" and "folders_seq db' = folders_seq db"
    and "file_versions_seq db' = file_versions_seq db"
    and "uid \<in> u_id ` set (users db)"
  using assms by (auto simp: insert_file_def split: if_splits)

lemma catalog_ok_insert_file:
  assumes ok: "catalog_ok db"
    and ins: "insert_file db now fname orig path sz mime folder uid = Some db'"
  shows "catalog_ok db'"
proof -
  note i = insert_file_Some[OF ins]
  from ok have f: "files_ok db" and v: "versions_ok db" and d: "folders_ok db"
    and u: "distinct (map u_id (users db))"
    by (simp_all add: catalog_ok_def)
  have "files_ok db'"
  proof -
    from f have le: "\<forall>f \<in> set (files db). f_id f \<le> files_seq db"
      and d: "distinct (map f_id (files db))" and z: "0 \<le> files_seq db"
      and b: "\<forall>f \<in> set (files db). 0 < f_id f \<and> f_uploaded_by f \<in> u_id ` set (users db)"
      by (auto simp: files_ok_def)
    from le have "files_seq db + 1 \<notin> f_id ` set (files db)" by fastforce
    with d z b le i(8) show ?thesis
      unfolding files_ok_def i(1) i(2) i(3) by auto
  qed
  moreover have "versions_ok db'"
    using v unfolding versions_ok_def i by auto
  moreover have "folders_ok db'"
    using d unfolding folders_ok_def i by simp
  ultimately show ?thesis using u by (simp add: catalog_ok_def i(3))
qed

lemma versions_of_new_file:
  assumes "versions_ok db" and "files_ok db" and "files_seq db < j"
  shows "versions_of db j = []"
proof -
  have "v_file_id v \<noteq> j" if "v \<in> set (file_versions db)" for v
  proof -
    from assms(1) that have "v_file_id v \<in> f_id ` set (files db)"
      by (simp add: versions_ok_def)
    with assms(2) have "v_file_id v \<le> files_seq db" by (auto simp: files_ok_def)
    with assms(3) show ?thesis by simp
  qed
  then show ?thesis by (simp add: versions_of_def filter_empty_conv)
qed

lemma find_append_case:
  "find P (xs @ ys) = (case find P xs of None \<Rightarrow> find P ys | Some x \<Rightarrow> Some x)"
  by (induction xs) auto

lemma select_file_append_new:
  assumes "files_ok db" and "files db' = files db @ [r]" and "f_id r = files_seq db + 1"
  shows "select_file db' (f_id r) = Some r"
    and "j \<noteq> f_id r \<Longrightarrow> select_file db' j = select_file db j"
proof -
  from assms(1,3) have "\<forall>f \<in> set (files db). f_id f \<noteq> f_id r"
    by (auto simp: files_ok_def)
  then have "find (\<lambda>f. f_id f = f_id r) (files db) = None"
    by (simp add: find_None_iff)
  then show "select_file db' (f_id r) = Some r"
    by (simp add: select_file_def assms(2) find_append_case)
  show "j \<noteq> f_id r \<Longrightarrow> select_file db' j = select_file db j"
    by (simp add: select_file_def assms(2) find_append_case split: option.splits)
qed

lemma first_upload_only_insert_file:
  assumes ok: "catalog_ok db"
    and ins: "insert_file db now fname orig path sz mime folder uid = Some db'"
  shows "first_upload_only db' (files_seq db')"
    and "first_upload_only db j \<Longrightarrow> first_upload_only db' j"
proof -
  note i = insert_file_Some[OF ins]
  from ok have f: "files_ok db" and v: "versions_ok db" by (simp_all add: catalog_ok_def)
  let ?r = "\<lparr>f_id = files_seq db + 1, f_filename = fname, f_original_filename = orig,
             f_file_path = path, f_file_size = sz, f_mime_type = mime,
             f_uploaded_by = uid, f_uploaded_at = now, f_folder_id = folder,
             f_current_version = 1\<rparr>"
  have s: "select_file db' (f_id ?r) = Some ?r"
    by (rule select_file_append_new(1)[OF f]) (simp_all add: i)
  have "versions_of db' (files_seq db') = versions_of db (files_seq db + 1)"
    by (simp add: versions_of_def i)
  also have "\<dots> = []" by (rule versions_of_new_file[OF v f]) simp
  finally show "first_upload_only db' (files_seq db')"
    using s by (simp add: first_upload_only_def i(2))
  assume j: "first_upload_only db j"
  then have "select_file db j \<noteq> None" by (auto simp: first_upload_only_def split: option.splits)
  then have "j \<in> f_id ` set (files db)"
    by (auto simp: select_file_def find_None_iff)
  with f have "j \<noteq> f_id ?r" by (auto simp: files_ok_def)
  then have "select_file db' j = select_file db j"
    by (rule select_file_append_new(2)[OF f, rotated 2]) (simp_all add: i)
  with j show "first_upload_only db' j"
    by (simp add: first_upload_only_def versions_of_def i)
qed

lemma upload_loop_step:
  assumes "upload_loop db now (mf # rest) folder uid acc = (Inr out, db')"
  shows "\<exists>db1. insert_file db now (m_filename mf) (sanitizeFilename (m_originalname mf))
             (m_path mf) (m_size mf) (m_mimetype mf) folder uid = Some db1
           \<and> upload_loop db1 now rest folder uid
                 (acc @ [\<lparr>up_id = files_seq db1,
                           up_filename = sanitizeFilename (m_originalname mf),
                           up_size = m_size mf, up_mimeType = m_mimetype mf\<rparr>]) = (Inr out, db')"
  using assms by (simp split: option.splits)

lemma upload_loop_first_upload:
  "catalog_ok db \<Longrightarrow> upload_loop db now fs folder uid acc = (Inr out, db')
     \<Longrightarrow> \<forall>x \<in> set acc. first_upload_only db (up_id x)
     \<Longrightarrow> catalog_ok db' \<and> (\<forall>x \<in> set out. first_upload_only db' (up_id x))
         \<and> length out = length acc + length fs"
proof (induction fs arbitrary: db acc)
  case Nil
  then show ?case by simp
next
  case (Cons mf rest)
  from upload_loop_step[OF Cons.prems(2)] obtain db1 where
    ins: "insert_file db now (m_filename mf) (sanitizeFilename (m_originalname mf))
             (m_path mf) (m_size mf) (m_mimetype mf) folder uid = Some db1"
    and run: "upload_loop db1 now rest folder uid
                 (acc @ [\<lparr>up_id = files_seq db1,
                           up_filename = sanitizeFilename (m_originalname mf),
                           up_size = m_size mf, up_mimeType = m_mimetype mf\<rparr>]) = (Inr out, db')"
    by blast
  have ok1: "catalog_ok db1" by (rule catalog_ok_insert_file[OF Cons.prems(1) ins])
  have new: "first_upload_only db1 (files_seq db1)"
    by (rule first_upload_only_insert_file(1)[OF Cons.prems(1) ins])
  have old: "first_upload_only db1 (up_id x)" if "x \<in> set acc" for x
    using first_upload_only_insert_file(2)[OF Cons.prems(1) ins] Cons.prems(3) that
    by blast
  have all: "\<forall>x \<in> set (acc @ [\<lparr>up_id = files_seq db1,
                           up_filename = sanitizeFilename (m_originalname mf),
                           up_size = m_size mf, up_mimeType = m_mimetype mf\<rparr>]).
               first_upload_only db1 (up_id x)"
    using new old by auto
  from Cons.IH[OF ok1 run all] have a: "catalog_ok db'"
    and b: "\<forall>x \<in> set out. first_upload_only db' (up_id x)"
    and c: "length out = length (acc @ [\<lparr>up_id = files_seq db1,
                           up_filename = sanitizeFilename (m_originalname mf),
                           up_size = m_size mf, up_mimeType = m_mimetype mf\<rparr>]) + length rest"
    by blast+
  from c have d: "length out = length acc + length (mf # rest)" by simp
  show ?case by (intro conjI a b d)
qed

lemma concat_map_Nil: "concat (map (\<lambda>u. []) us) = []"
  by simp

lemma join_no_versions:
  assumes "\<forall>v \<in> set vs. v_file_id v \<noteq> i"
  shows "[(v, u). v \<leftarrow> vs, u \<leftarrow> us, v_uploaded_by v = u_id u, v_file_id v = i] = []"
  unfolding concat_eq_Nil_conv
proof (rule ballI)
  fix xs
  assume "xs \<in> set (map (\<lambda>v. concat (map (\<lambda>u. if v_uploaded_by v = u_id u
            then if v_file_id v = i then [(v, u)] else [] else []) us)) vs)"
  then obtain v where v: "v \<in> set vs"
    and xs: "xs = concat (map (\<lambda>u. if v_uploaded_by v = u_id u
            then if v_file_id v = i then [(v, u)] else [] else []) us)"
    unfolding set_map by (rule imageE)
  from assms v have "v_file_id v \<noteq> i" by (rule bspec)
  then have "(\<lambda>u. if v_uploaded_by v = u_id u then if v_file_id v = i then [(v, u)] else []
                  else []) = (\<lambda>u. [])"
    by (simp add: fun_eq_iff)
  then have "xs = concat (map (\<lambda>u. []) us)"
    unfolding xs by (rule arg_cong[where f = "\<lambda>g. concat (map g us)"])
  then show "xs = []" by (simp only: concat_map_Nil)
qed

lemma listVersions_first_upload:
  assumes "first_upload_only db i"
  shows "\<exists>r. listVersions db (Num i) = Inr r \<and> vr_currentVersion r = 1 \<and> vr_versions r = []"
proof -
  from assms obtain f where f: "select_file db i = Some f" "f_current_version f = 1"
    and v: "versions_of db i = []"
    by (auto simp: first_upload_only_def split: option.splits)
  from v have "\<forall>v \<in> set (file_versions db). v_file_id v \<noteq> i"
    by (simp add: versions_of_def filter_empty_conv)
  then have e: "[(v, u). v \<leftarrow> file_versions db, u \<leftarrow> users db,
                v_uploaded_by v = u_id u, v_file_id v = i] = []"
    by (rule join_no_versions)
  have "listVersions db (Num i)
      = Inr \<lparr>vr_fileId = f_id f, vr_filename = f_original_filename f,
              vr_currentVersion = f_current_version f, vr_versions = []\<rparr>"
    by (simp only: listVersions_def jsnum.case f(1) option.case Let_def e) simp
  with f(2) show ?thesis by simp
qed

subsection \<open>AddVersion\<close>

lemma sql_max_Max: "xs \<noteq> [] \<Longrightarrow> sql_max xs = Some (Max (set xs))"
  by (cases xs) (simp_all add: Max.set_eq_fold[symmetric])

lemma next_version_formula:
  assumes "0 \<le> c"
  shows "max (js_or (sql_max xs) (js_or (Some c) 0)) (js_or (Some c) 0) + 1
           = Max (insert c (set xs)) + 1"
proof (cases xs)
  case Nil
  then show ?thesis by simp
next
  case (Cons x ys)
  then have "xs \<noteq> []" by simp
  then have m: "sql_max xs = Some (Max (set xs))" by (rule sql_max_Max)
  have f: "finite (set xs)" "set xs \<noteq> {}" using Cons by simp_all
  have "Max (insert c (set xs)) = max c (Max (set xs))"
    using f by (rule Max_insert)
  then show ?thesis using assms by (auto simp: m)
qed

lemma insert_version_Some:
  assumes "insert_version db now i n path sz uid = Some db'"
  shows "file_versions db' = file_versions db @
           [\<lparr>v_id = file_versions_seq db + 1, v_file_id = i, v_version_number = n,
             v_file_path = path, v_file_size = sz, v_uploaded_by = uid,
             v_uploaded_at = now\<rparr>]"
    and "file_versions_seq db' = file_versions_seq db + 1"
    and "users db' = users db" and "folders db' = folders db" and "files db' = files db"
    and "folders_seq db' = folders_seq db" and "files_seq db' = files_seq db"
  using assms by (auto simp: insert_version_def split: if_splits)

lemma insert_version_succeeds:
  assumes "i \<in> f_id ` set (files db)" and "uid \<in> u_id ` set (users db)"
    and "n \<notin> set (version_numbers db i)"
  shows "insert_version db now i n path sz uid
           = Some (db\<lparr>file_versions := file_versions db @
                       [\<lparr>v_id = file_versions_seq db + 1, v_file_id = i,
                         v_version_number = n, v_file_path = path,
                         v_file_size = sz, v_uploaded_by = uid,
                         v_uploaded_at = now\<rparr>],
                     file_versions_seq := file_versions_seq db + 1\<rparr>)"
proof -
  from assms(3) have "\<not> (\<exists>v \<in> set (file_versions db). v_file_id v = i \<and> v_version_number v = n)"
    by (auto simp: version_numbers_def versions_of_def)
  with assms(1,2) show ?thesis unfolding insert_version_def by simp
qed

lemma catalog_ok_insert_version:
  assumes ok: "catalog_ok db"
    and ins: "insert_version db now i n path sz uid = Some db'"
  shows "catalog_ok db'"
proof -
  note s = insert_version_Some[OF ins]
  from ins have c: "i \<in> f_id ` set (files db)" "uid \<in> u_id ` set (users db)"
    "\<forall>v \<in> set (file_versions db). \<not> (v_file_id v = i \<and> v_version_number v = n)"
    by (auto simp: insert_version_def split: if_splits)
  from ok have f: "files_ok db" and v: "versions_ok db" and d: "folders_ok db"
    and u: "distinct (map u_id (users db))"
    by (simp_all add: catalog_ok_def)
  from v have le: "\<forall>v \<in> set (file_versions db). v_id v \<le> file_versions_seq db"
    and z: "0 \<le> file_versions_seq db"
    by (auto simp: versions_ok_def)
  from le have fresh: "file_versions_seq db + 1 \<notin> v_id ` set (file_versions db)" by fastforce
  from c(3) have pair: "(i, n) \<notin> (\<lambda>v. (v_file_id v, v_version_number v)) ` set (file_versions db)"
    by auto
  have "versions_ok db'"
    using v z fresh pair c(1,2) le unfolding versions_ok_def s by auto
  moreover have "files_ok db'" using f unfolding files_ok_def s by simp
  moreover have "folders_ok db'" using d unfolding folders_ok_def s by simp
  ultimately show ?thesis using u by (simp add: catalog_ok_def s(3))
qed

text \<open>
  The state a successful AddVersion leaves: the version row appended and the file's
  \<^verbatim>\<open>current_version\<close> set.
\<close>

lemma addVersion_succeeds:
  assumes ok: "catalog_ok db" and f: "select_file db i = Some f"
    and c: "0 \<le> f_current_version f" and u: "uid \<in> u_id ` set (users db)"
    and n: "n = Max (insert (f_current_version f) (set (version_numbers db i))) + 1"
  shows "addVersion db now (Num i) (Some mf) uid
           = (Inr \<lparr>nv_id = file_versions_seq db + 1, nv_versionNumber = n,
                    nv_fileSize = m_size mf\<rparr>,
              update_current_version
                (db\<lparr>file_versions := file_versions db @
                       [\<lparr>v_id = file_versions_seq db + 1, v_file_id = i,
                         v_version_number = n, v_file_path = m_path mf,
                         v_file_size = m_size mf, v_uploaded_by = uid,
                         v_uploaded_at = now\<rparr>],
                     file_versions_seq := file_versions_seq db + 1\<rparr>) n i)"
proof -
  let ?xs = "map v_version_number (filter (\<lambda>v. v_file_id v = i) (file_versions db))"
  have xs: "?xs = version_numbers db i"
    by (simp add: version_numbers_def versions_of_def)
  have nx: "max (js_or (sql_max ?xs) (js_or (Some (f_current_version f)) 0))
              (js_or (Some (f_current_version f)) 0) + 1 = n"
    unfolding n xs[symmetric] by (rule next_version_formula[OF c])
  have "\<forall>x \<in> set (version_numbers db i). x < n"
  proof
    fix x assume "x \<in> set (version_numbers db i)"
    then have "x \<le> Max (insert (f_current_version f) (set (version_numbers db i)))"
      by (intro Max_ge) simp_all
    then show "x < n" by (simp add: n)
  qed
  then have fresh: "n \<notin> set (version_numbers db i)" by auto
  from f have mem: "i \<in> f_id ` set (files db)"
    using select_file_id[OF f] by force
  note ins = insert_version_succeeds[OF mem u fresh, of now "m_path mf" "m_size mf"]
  show ?thesis
    unfolding addVersion_def
    by (simp only: jsnum.case option.case f Let_def option.map nx ins) simp
qed

lemma addVersion_state:
  assumes ok: "catalog_ok db" and f: "select_file db i = Some f"
    and c: "0 \<le> f_current_version f" and u: "uid \<in> u_id ` set (users db)"
    and n: "n = Max (insert (f_current_version f) (set (version_numbers db i))) + 1"
    and r: "addVersion db now (Num i) (Some mf) uid = (res, db')"
  shows "res = Inr \<lparr>nv_id = file_versions_seq db + 1, nv_versionNumber = n,
                     nv_fileSize = m_size mf\<rparr>"
    and "catalog_ok db'"
    and "select_file db' i = Some (f\<lparr>f_current_version := n\<rparr>)"
    and "version_numbers db' i = version_numbers db i @ [n]"
    and "users db' = users db"
    and "j \<noteq> i \<Longrightarrow> versions_of db' j = versions_of db j"
    and "j \<noteq> i \<Longrightarrow> select_file db' j = select_file db j"
proof -
  let ?row = "\<lparr>v_id = file_versions_seq db + 1, v_file_id = i,
                         v_version_number = n, v_file_path = m_path mf,
                         v_file_size = m_size mf, v_uploaded_by = uid,
                         v_uploaded_at = now\<rparr>"
  let ?db1 = "db\<lparr>file_versions := file_versions db @ [?row],
                     file_versions_seq := file_versions_seq db + 1\<rparr>"
  from addVersion_succeeds[OF ok f c u n, of now mf] r
  have res: "res = Inr \<lparr>nv_id = file_versions_seq db + 1, nv_versionNumber = n,
                     nv_fileSize = m_size mf\<rparr>"
    and db': "db' = update_current_version ?db1 n i"
    by simp_all
  show "res = Inr \<lparr>nv_id = file_versions_seq db + 1, nv_versionNumber = n,
                     nv_fileSize = m_size mf\<rparr>" by (rule res)
  have "\<forall>x \<in> set (version_numbers db i). x < n"
  proof
    fix x assume "x \<in> set (version_numbers db i)"
    then have "x \<le> Max (insert (f_current_version f) (set (version_numbers db i)))"
      by (intro Max_ge) simp_all
    then show "x < n" by (simp add: n)
  qed
  then have fresh: "n \<notin> set (version_numbers db i)" by auto
  from f have mem: "i \<in> f_id ` set (files db)"
    using select_file_id[OF f] by force
  have ins: "insert_version db now i n (m_path mf) (m_size mf) uid = Some ?db1"
    by (rule insert_version_succeeds[OF mem u fresh])
  have ok1: "catalog_ok ?db1" by (rule catalog_ok_insert_version[OF ok ins])
  show "catalog_ok db'" unfolding db' by (rule catalog_ok_update_current_version[OF ok1])
  have f1: "select_file ?db1 k = select_file db k" for k by (simp add: select_file_def)
  show "select_file db' i = Some (f\<lparr>f_current_version := n\<rparr>)"
    using f select_file_id[OF f] by (simp add: db' select_file_update f1)
  show "version_numbers db' i = version_numbers db i @ [n]"
    by (simp add: db' version_numbers_def versions_of_def)
  show "users db' = users db" by (simp add: db')
  show "j \<noteq> i \<Longrightarrow> versions_of db' j = versions_of db j"
    by (simp add: db' versions_of_def)
  show "select_file db' j = select_file db j" if "j \<noteq> i"
  proof (cases "select_file db j")
    case None
    then show ?thesis by (simp add: db' select_file_update f1)
  next
    case (Some g)
    with that select_file_id[OF Some] show ?thesis
      by (simp add: db' select_file_update f1)
  qed
qed

lemma Max_insert_upto: "Max (insert c (set [2..c])) = (c :: int)"
  by (rule Max_eqI) auto

text \<open>
  AddVersion called for each upload of a list on a file whose current version is \<open>c\<close>
  and whose version rows are numbered \<open>2..c\<close>.
\<close>

lemma addVersions_run:
  assumes "catalog_ok db" and "select_file db i = Some f" and "f_current_version f = c"
    and "1 \<le> c" and "version_numbers db i = [2..c]"
    and "\<forall>x \<in> set ups. snd (snd x) \<in> u_id ` set (users db)"
  shows "\<exists>rs db' f'. addVersions db (Num i) ups = (rs, db')
           \<and> map (map_sum id nv_versionNumber) rs = map Inr [c + 1..c + int (length ups)]
           \<and> catalog_ok db' \<and> select_file db' i = Some f'
           \<and> f_current_version f' = c + int (length ups)
           \<and> version_numbers db' i = [2..c + int (length ups)]
           \<and> users db' = users db"
  using assms
proof (induction ups arbitrary: db f c)
  case Nil
  then show ?case by simp
next
  case (Cons x rest)
  obtain now mf uid where x: "x = (now, mf, uid)" by (cases x) auto
  from Cons.prems(6) x have u: "uid \<in> u_id ` set (users db)" by simp
  have c0: "0 \<le> f_current_version f" using Cons.prems(3,4) by simp
  have n: "c + 1 = Max (insert (f_current_version f) (set (version_numbers db i))) + 1"
    by (simp only: Cons.prems(3,5) Max_insert_upto)
  obtain res db1 where r: "addVersion db now (Num i) (Some mf) uid = (res, db1)"
    by (cases "addVersion db now (Num i) (Some mf) uid") auto
  note st = addVersion_state[OF Cons.prems(1,2) c0 u n r]
  have vn1: "version_numbers db1 i = [2..c + 1]"
    using Cons.prems(4) by (simp add: st(4) Cons.prems(5) upto_rec2[of 2 "c + 1"])
  have us1: "\<forall>x \<in> set rest. snd (snd x) \<in> u_id ` set (users db1)"
    using Cons.prems(6) by (simp add: st(5))
  have c1: "f_current_version (f\<lparr>f_current_version := c + 1\<rparr>) = c + 1" by simp
  have c2: "1 \<le> c + 1" using Cons.prems(4) by simp
  from Cons.IH[OF st(2) st(3) c1 c2 vn1 us1]
  obtain rs db' f' where rest: "addVersions db1 (Num i) rest = (rs, db')"
    and nums: "map (map_sum id nv_versionNumber) rs = map Inr [c + 1 + 1..c + 1 + int (length rest)]"
    and ok': "catalog_ok db'" and f': "select_file db' i = Some f'"
    and cv': "f_current_version f' = c + 1 + int (length rest)"
    and vn': "version_numbers db' i = [2..c + 1 + int (length rest)]"
    and us': "users db' = users db1"
    by blast
  have run: "addVersions db (Num i) (x # rest) = (res # rs, db')"
    by (simp add: x r rest)
  have len: "c + int (length (x # rest)) = c + 1 + int (length rest)" by simp
  have "[c + 1..c + 1 + int (length rest)] = (c + 1) # [c + 1 + 1..c + 1 + int (length rest)]"
    by (rule upto_rec1) simp
  then have "[c + 1..c + int (length (x # rest))]
      = (c + 1) # [c + 1 + 1..c + 1 + int (length rest)]"
    by (simp only: len)
  then have m: "map (map_sum id nv_versionNumber) (res # rs)
      = map Inr [c + 1..c + int (length (x # rest))]"
    by (simp add: st(1) nums)
  have cv'': "f_current_version f' = c + int (length (x # rest))"
    using cv' by (simp only: len)
  have vn'': "version_numbers db' i = [2..c + int (length (x # rest))]"
    using vn' by (simp only: len)
  have us'': "users db' = users db" using us' st(5) by simp
  show ?case
    by (intro exI[of _ "res # rs"] exI[of _ db'] exI[of _ f'] conjI run m ok' f' cv'' vn'' us'')
qed

subsection \<open>AddVersion in sequence\<close>

lemma first_upload_only_run:
  assumes "first_upload_only db i"
  shows "\<exists>f. select_file db i = Some f \<and> f_current_version f = 1"
    and "version_numbers db i = [2..1]"
  using assms
  by (auto simp: first_upload_only_def version_numbers_def split: option.splits)

lemma addVersions_length:
  "length (fst (addVersions db fileId ups)) = length ups"
  by (induction db fileId ups rule: addVersions.induct) (auto split: prod.splits)

text \<open>
  C1. In a catalog state, on a file as its first upload left it (current version 1, no
  version row), AddVersion called once for each of \<open>N\<close> uploads by known users answers
  with the version numbers \<open>2, 3, ..., N + 1\<close> in order, which are distinct; before each
  call the answer's number is the largest of the file's version numbers and its current
  version, plus one; and at the end the file's current version is \<open>N + 1\<close> and its
  version rows are numbered \<open>2, ..., N + 1\<close>.
\<close>

theorem addVersion_sequence:
  assumes "catalog_ok db" and "first_upload_only db i"
    and "\<forall>(now, mf, uid) \<in> set ups. uid \<in> u_id ` set (users db)"
  shows "\<exists>rs db' f'. addVersions db (Num i) ups = (rs, db')
           \<and> map (map_sum id nv_versionNumber) rs = map Inr [2..int (length ups) + 1]
           \<and> distinct (map (map_sum id nv_versionNumber) rs)
           \<and> select_file db' i = Some f' \<and> f_current_version f' = int (length ups) + 1
           \<and> version_numbers db' i = [2..int (length ups) + 1]
           \<and> (\<forall>k < length ups.
                 \<exists>dbk fk v. dbk = snd (addVersions db (Num i) (take k ups))
                   \<and> select_file dbk i = Some fk \<and> rs ! k = Inr v
                   \<and> nv_versionNumber v
                       = Max (insert (f_current_version fk) (set (version_numbers dbk i))) + 1)"
proof -
  from first_upload_only_run[OF assms(2)] obtain f where f: "select_file db i = Some f"
    and cv: "f_current_version f = 1" and vn: "version_numbers db i = [2..1]"
    by blast
  have us: "\<forall>x \<in> set ups. snd (snd x) \<in> u_id ` set (users db)"
    using assms(3) by (auto simp: case_prod_beta)
  from addVersions_run[OF assms(1) f cv _ vn us]
  obtain rs db' f' where run: "addVersions db (Num i) ups = (rs, db')"
    and nums: "map (map_sum id nv_versionNumber) rs = map Inr [1 + 1..1 + int (length ups)]"
    and f': "select_file db' i = Some f'"
    and cv': "f_current_version f' = 1 + int (length ups)"
    and vn': "version_numbers db' i = [2..1 + int (length ups)]"
    by auto
  have nums2: "map (map_sum id nv_versionNumber) rs = map Inr [2..int (length ups) + 1]"
    using nums by (simp add: add.commute)
  have dist: "distinct (map (map_sum id nv_versionNumber) rs)"
    unfolding nums2 by (simp add: distinct_map)
  have len: "length rs = length ups"
    using addVersions_length[of db "Num i" ups] run by simp
  have step: "\<exists>dbk fk v. dbk = snd (addVersions db (Num i) (take k ups))
                   \<and> select_file dbk i = Some fk \<and> rs ! k = Inr v
                   \<and> nv_versionNumber v
                       = Max (insert (f_current_version fk) (set (version_numbers dbk i))) + 1"
    if k: "k < length ups" for k
  proof -
    have usk: "\<forall>x \<in> set (take k ups). snd (snd x) \<in> u_id ` set (users db)"
      using us by (meson in_set_takeD)
    from addVersions_run[OF assms(1) f cv _ vn usk]
    obtain rsk dbk fk where runk: "addVersions db (Num i) (take k ups) = (rsk, dbk)"
      and fk: "select_file dbk i = Some fk"
      and cvk: "f_current_version fk = 1 + int (length (take k ups))"
      and vnk: "version_numbers dbk i = [2..1 + int (length (take k ups))]"
      by auto
    have lk: "int (length (take k ups)) = int k" using k by simp
    have mx: "Max (insert (f_current_version fk) (set (version_numbers dbk i))) = 1 + int k"
      unfolding cvk vnk lk by (rule Max_insert_upto)
    have "map (map_sum id nv_versionNumber) rs ! k = map Inr [2..int (length ups) + 1] ! k"
      by (simp only: nums2)
    then have "map_sum id nv_versionNumber (rs ! k) = Inr ([2..int (length ups) + 1] ! k)"
      using k len by simp
    also have "[2..int (length ups) + 1] ! k = 2 + int k"
      using k by (intro nth_upto) simp
    finally obtain v where v: "rs ! k = Inr v" "nv_versionNumber v = 2 + int k"
      by (cases "rs ! k") auto
    show ?thesis
      using runk fk v mx by auto
  qed
  show ?thesis
    using run nums2 dist f' cv' vn' step by (auto simp: add.commute)
qed

lemma catalog_ok_example_db2: "catalog_ok example_db2"
  by (simp add: example_db2_eq example_users_def catalog_ok_def folders_ok_def files_ok_def
      versions_ok_def js_def)

lemma first_upload_only_example_db2: "first_upload_only example_db2 1"
  by (simp add: example_db2_eq first_upload_only_def select_file_def versions_of_def)

theorem addVersion_sequence_witness:
  "catalog_ok example_db2 \<and> first_upload_only example_db2 1
   \<and> map (map_sum id nv_versionNumber)
         (fst (addVersions example_db2 (Num 1)
                 [(102, clip_v2, 1), (103, clip_v1, 2), (104, clip_v2, 1)]))
       = [Inr 2, Inr 3, Inr 4]
   \<and> version_numbers example_db5 1 = [2, 3, 4]
   \<and> map_option f_current_version (select_file example_db5 1) = Some 4"
proof -
  let ?ups = "[(102, clip_v2, 1), (103, clip_v1, 2), (104, clip_v2, 1)]
                :: (int \<times> multer_file \<times> int) list"
  have u: "\<forall>(now, mf, uid) \<in> set ?ups. uid \<in> u_id ` set (users example_db2)"
    by (simp add: example_db2_eq example_users_def)
  from addVersion_sequence[OF catalog_ok_example_db2 first_upload_only_example_db2 u]
  obtain rs db' f' where run: "addVersions example_db2 (Num 1) ?ups = (rs, db')"
    and nums: "map (map_sum id nv_versionNumber) rs = map Inr [2..int (length ?ups) + 1]"
    and f': "select_file db' 1 = Some f'" "f_current_version f' = int (length ?ups) + 1"
    and vn: "version_numbers db' 1 = [2..int (length ?ups) + 1]"
    by blast
  have db': "db' = example_db5" using run by (simp add: example_db5_def)
  have up: "[2..int (length ?ups) + 1] = [2, 3, 4]"
    by (simp add: upto_rec1)
  show ?thesis
    using run nums f' vn catalog_ok_example_db2 first_upload_only_example_db2
    unfolding db' up by simp
qed

subsection \<open>ListVersions after the first upload\<close>

lemma uploadFiles_first_upload:
  assumes ok: "catalog_ok db"
    and up: "uploadFiles db now reqfiles folderId userId = (Inr out, db')"
  shows "catalog_ok db' \<and> length out = length reqfiles
         \<and> (\<forall>x \<in> set out. first_upload_only db' (up_id x))"
proof -
  from up have "upload_loop db now reqfiles (sql_param folderId) userId [] = (Inr out, db')"
    by (simp add: uploadFiles_def split: if_splits)
  from upload_loop_first_upload[OF ok this] show ?thesis by simp
qed

lemma first_upload_only_addVersion_other:
  assumes "first_upload_only db i" and "j \<noteq> i"
    and "addVersion db now (Num j) mf uid = (res, db')"
  shows "first_upload_only db' i"
proof (cases "\<exists>n. db' = update_current_version
       (db\<lparr>file_versions := file_versions db @
                       [\<lparr>v_id = file_versions_seq db + 1, v_file_id = j,
                         v_version_number = n, v_file_path = m_path (the mf),
                         v_file_size = m_size (the mf), v_uploaded_by = uid,
                         v_uploaded_at = now\<rparr>],
                     file_versions_seq := file_versions_seq db + 1\<rparr>) n j")
  case True
  then obtain n where db': "db' = update_current_version
       (db\<lparr>file_versions := file_versions db @
                       [\<lparr>v_id = file_versions_seq db + 1, v_file_id = j,
                         v_version_number = n, v_file_path = m_path (the mf),
                         v_file_size = m_size (the mf), v_uploaded_by = uid,
                         v_uploaded_at = now\<rparr>],
                     file_versions_seq := file_versions_seq db + 1\<rparr>) n j"
    by blast
  from assms(1) obtain f where f: "select_file db i = Some f" "f_current_version f = 1"
    and v: "versions_of db i = []"
    by (auto simp: first_upload_only_def split: option.splits)
  have fi: "f_id f \<noteq> j" using select_file_id[OF f(1)] assms(2) by simp
  have "select_file db' i = map_option
      (\<lambda>f. if f_id f = j then f\<lparr>f_current_version := n\<rparr> else f) (select_file db i)"
    unfolding db' select_file_update by (simp add: select_file_def)
  then have "select_file db' i = Some f"
    using fi by (simp add: f(1))
  moreover have "versions_of db' i = []"
    using v assms(2) by (simp add: db' versions_of_def)
  ultimately show ?thesis using f(2) by (simp add: first_upload_only_def)
next
  case False
  have "db' = db"
    using assms(3) False
    by (auto simp: addVersion_def Let_def insert_version_def
        split: option.splits if_splits)
  with assms(1) show ?thesis by simp
qed

text \<open>
  C10. In a catalog state, every file that a successful upload has just created is as
  its first upload left it: its row has current version 1 and there is no version row
  for it. It stays so when AddVersion is called on another file. For such a file,
  ListVersions succeeds and answers with current version 1 and an empty list of
  versions, so that no entry is flagged current.
\<close>

theorem listVersions_after_first_upload:
  "(\<forall>out db'. catalog_ok db \<and> uploadFiles db now reqfiles folderId userId = (Inr out, db') \<longrightarrow>
       catalog_ok db' \<and> length out = length reqfiles
       \<and> (\<forall>x \<in> set out. first_upload_only db' (up_id x)))
   \<and> (\<forall>j now' mf uid res db'.
         first_upload_only db i \<and> j \<noteq> i \<and> addVersion db now' (Num j) mf uid = (res, db') \<longrightarrow>
         first_upload_only db' i)
   \<and> (first_upload_only db i \<longrightarrow>
         (\<exists>f. select_file db i = Some f \<and> f_current_version f = 1)
         \<and> versions_of db i = []
         \<and> (\<exists>r. listVersions db (Num i) = Inr r \<and> vr_currentVersion r = 1
                \<and> vr_versions r = [] \<and> filter vi_isCurrent (vr_versions r) = []))"
proof (intro conjI allI impI)
  fix out db'
  assume "catalog_ok db \<and> uploadFiles db now reqfiles folderId userId = (Inr out, db')"
  then have "catalog_ok db' \<and> length out = length reqfiles
       \<and> (\<forall>x \<in> set out. first_upload_only db' (up_id x))"
    using uploadFiles_first_upload by blast
  then show "catalog_ok db'" "length out = length reqfiles"
    "\<forall>x \<in> set out. first_upload_only db' (up_id x)"
    by blast+
next
  fix j now' mf uid res db'
  assume "first_upload_only db i \<and> j \<noteq> i \<and> addVersion db now' (Num j) mf uid = (res, db')"
  then show "first_upload_only db' i"
    using first_upload_only_addVersion_other by blast
next
  assume a: "first_upload_only db i"
  then show "\<exists>f. select_file db i = Some f \<and> f_current_version f = 1"
    "versions_of db i = []"
    by (auto simp: first_upload_only_def split: option.splits)
  from listVersions_first_upload[OF a]
  show "\<exists>r. listVersions db (Num i) = Inr r \<and> vr_currentVersion r = 1
                \<and> vr_versions r = [] \<and> filter vi_isCurrent (vr_versions r) = []"
    by auto
qed

lemma catalog_ok_example_db1: "catalog_ok example_db1"
  by (simp add: example_db1_eq example_users_def catalog_ok_def folders_ok_def files_ok_def
      versions_ok_def js_def)

theorem listVersions_after_first_upload_witness:
  "catalog_ok example_db1
   \<and> uploadFiles example_db1 101 [clip_v1] (Some (Num 1)) 1
       = (Inr [\<lparr>up_id = 1, up_filename = js ''clip.mp4'', up_size = 2000000,
                 up_mimeType = js ''video/mp4''\<rparr>], example_db2)
   \<and> first_upload_only example_db2 1
   \<and> listVersions example_db2 (Num 1)
       = Inr \<lparr>vr_fileId = 1, vr_filename = js ''clip.mp4'', vr_currentVersion = 1,
               vr_versions = []\<rparr>"
proof -
  have up: "uploadFiles example_db1 101 [clip_v1] (Some (Num 1)) 1
       = (Inr [\<lparr>up_id = 1, up_filename = js ''clip.mp4'', up_size = 2000000,
                 up_mimeType = js ''video/mp4''\<rparr>], example_db2)"
    unfolding example_db2_eq
    by (simp add: example_db1_eq example_users_def eval_files select_folder_def eval_strings)
  from listVersions_after_first_upload[where db = example_db1 and now = 101
      and reqfiles = "[clip_v1]" and folderId = "Some (Num 1)" and userId = 1]
    catalog_ok_example_db1 up
  have f: "first_upload_only example_db2 1"
    by auto
  with listVersions_after_first_upload[where db = example_db2 and i = 1]
  have l: "\<exists>r. listVersions example_db2 (Num 1) = Inr r \<and> vr_currentVersion r = 1
                \<and> vr_versions r = []"
    by blast
  from l have "listVersions example_db2 (Num 1)
       = Inr \<lparr>vr_fileId = 1, vr_filename = js ''clip.mp4'', vr_currentVersion = 1,
               vr_versions = []\<rparr>"
    by (auto simp: listVersions_def example_db2_eq select_file_def Let_def
        split: option.splits)
  with catalog_ok_example_db1 up f show ?thesis by simp
qed

subsection \<open>The scenario: first upload, new version, restore\<close>

lemma addVersion_Inr:
  assumes "addVersion db now fileId mf uid = (Inr v, db')"
  shows "uid \<in> u_id ` set (users db) \<and> (\<exists>i mfile. fileId = Num i \<and> mf = Some mfile)"
  using assms
  by (auto simp: addVersion_def Let_def insert_version_def
      split: jsnum.splits option.splits if_splits)

lemma select_version_None:
  "n \<notin> set (version_numbers db i) \<Longrightarrow> select_version db i n = None"
  by (auto simp: select_version_def version_numbers_def versions_of_def find_None_iff)

lemma one_version_listed:
  assumes "length vs = 1" and "set (map vi_versionNumber vs) = {n}"
    and "\<forall>e \<in> set vs. vi_isCurrent e = (vi_versionNumber e = c)"
  shows "map (\<lambda>e. (vi_versionNumber e, vi_isCurrent e)) vs = [(n, n = c)]"
proof -
  from assms(1) obtain e where vs: "vs = [e]"
    by (cases vs) auto
  with assms(2,3) show ?thesis by auto
qed

text \<open>
  C5, as the code has it. In a catalog state, after the first upload of a file and one
  successful AddVersion on it, the answer of AddVersion was version 2 and the file's
  current version is 2. RestoreVersion of version 1 then fails with NotFound and changes
  nothing, since the first upload has no version row; ListVersions answers with current
  version 2 and one entry, version 2, flagged current.
\<close>

theorem restore_first_version_not_found:
  assumes "catalog_ok db"
    and "uploadFiles db now [file1] folderId uid1 = (Inr [x], db1)"
    and "addVersion db1 now2 (Num (up_id x)) mf uid2 = (Inr v, db2)"
  shows "nv_versionNumber v = 2
       \<and> map_option f_current_version (select_file db2 (up_id x)) = Some 2
       \<and> version_numbers db2 (up_id x) = [2]
       \<and> restoreVersion db2 (Num (up_id x)) (Num 1) = (Inl NotFound, db2)
       \<and> (\<exists>r. listVersions db2 (Num (up_id x)) = Inr r \<and> vr_currentVersion r = 2
              \<and> map (\<lambda>e. (vi_versionNumber e, vi_isCurrent e)) (vr_versions r) = [(2, True)])"
proof -
  let ?i = "up_id x"
  from uploadFiles_first_upload[OF assms(1,2)] have ok1: "catalog_ok db1"
    and fu: "first_upload_only db1 ?i"
    by simp_all
  from first_upload_only_run[OF fu] obtain f where f: "select_file db1 ?i = Some f"
    and cv: "f_current_version f = 1" and vn: "version_numbers db1 ?i = [2..1]"
    by blast
  from addVersion_Inr[OF assms(3)] obtain mfile where u: "uid2 \<in> u_id ` set (users db1)"
    and mf: "mf = Some mfile"
    by blast
  have c0: "0 \<le> f_current_version f" using cv by simp
  have n: "2 = Max (insert (f_current_version f) (set (version_numbers db1 ?i))) + 1"
    by (simp add: cv vn)
  note st = addVersion_state[OF ok1 f c0 u n assms(3)[unfolded mf]]
  from st(1) have v2: "nv_versionNumber v = 2" by simp
  have cur: "map_option f_current_version (select_file db2 ?i) = Some 2"
    by (simp add: st(3))
  have vns: "version_numbers db2 ?i = [2]" by (simp add: st(4) vn)
  have "select_version db2 ?i 1 = None"
    by (rule select_version_None) (simp add: vns)
  then have rs: "restoreVersion db2 (Num ?i) (Num 1) = (Inl NotFound, db2)"
    by (simp add: restoreVersion_def st(3))
  from listVersions_numbers[OF st(2) st(3)] obtain r where
    lv: "listVersions db2 (Num ?i) = Inr r"
    and rc: "vr_currentVersion r = 2"
    and st': "set (map vi_versionNumber (vr_versions r)) = set (version_numbers db2 ?i)"
    and len: "length (vr_versions r) = length (versions_of db2 ?i)"
    and fl: "\<forall>e \<in> set (vr_versions r). vi_isCurrent e = (vi_versionNumber e = 2)"
    by auto
  have "length (versions_of db2 ?i) = length (version_numbers db2 ?i)"
    by (simp add: version_numbers_def)
  with len vns have l1: "length (vr_versions r) = 1" by simp
  from st' vns have s1: "set (map vi_versionNumber (vr_versions r)) = {2}" by simp
  have "map (\<lambda>e. (vi_versionNumber e, vi_isCurrent e)) (vr_versions r) = [(2, (2::int) = 2)]"
    by (rule one_version_listed[OF l1 s1 fl])
  then have m: "map (\<lambda>e. (vi_versionNumber e, vi_isCurrent e)) (vr_versions r) = [(2, True)]"
    by (simp only: refl)
  have "\<exists>r. listVersions db2 (Num ?i) = Inr r \<and> vr_currentVersion r = 2
          \<and> map (\<lambda>e. (vi_versionNumber e, vi_isCurrent e)) (vr_versions r) = [(2, True)]"
    by (intro exI[of _ r] conjI lv rc m)
  then show ?thesis by (intro conjI v2 cur vns rs)
qed

lemma example_upload:
  "uploadFiles example_db1 101 [clip_v1] (Some (Num 1)) 1
       = (Inr [\<lparr>up_id = 1, up_filename = js ''clip.mp4'', up_size = 2000000,
                 up_mimeType = js ''video/mp4''\<rparr>], example_db2)"
  unfolding example_db2_eq
  by (simp add: example_db1_eq example_users_def eval_files select_folder_def eval_strings)

lemma example_addVersion:
  "addVersion example_db2 102 (Num 1) (Some clip_v2) 1
     = (Inr \<lparr>nv_id = 1, nv_versionNumber = 2, nv_fileSize = 3000000\<rparr>, example_db3)"
  unfolding example_db3_eq
  by (simp add: example_db2_eq example_users_def eval_files)

theorem restore_first_version_not_found_witness:
  "catalog_ok example_db1
   \<and> uploadFiles example_db1 101 [clip_v1] (Some (Num 1)) 1
       = (Inr [\<lparr>up_id = 1, up_filename = js ''clip.mp4'', up_size = 2000000,
                 up_mimeType = js ''video/mp4''\<rparr>], example_db2)
   \<and> addVersion example_db2 102 (Num 1) (Some clip_v2) 1
       = (Inr \<lparr>nv_id = 1, nv_versionNumber = 2, nv_fileSize = 3000000\<rparr>, example_db3)
   \<and> version_numbers example_db3 1 = [2]
   \<and> restoreVersion example_db3 (Num 1) (Num 1) = (Inl NotFound, example_db3)"
  using restore_first_version_not_found[OF catalog_ok_example_db1 example_upload,
      of 102 "Some clip_v2" 1 "\<lparr>nv_id = 1, nv_versionNumber = 2, nv_fileSize = 3000000\<rparr>"
      example_db3]
    catalog_ok_example_db1 example_upload example_addVersion
  by simp

text \<open>
  The scenario of the specification, run: after the upload of \<^verbatim>\<open>clip.mp4\<close> and one new
  version, RestoreVersion of version 1 does not succeed; it answers NotFound and leaves
  the current version at 2, and ListVersions shows one entry and not two.
\<close>

theorem restore_first_version_counterexample:
  "uploadFiles example_db1 101 [clip_v1] (Some (Num 1)) 1
       = (Inr [\<lparr>up_id = 1, up_filename = js ''clip.mp4'', up_size = 2000000,
                 up_mimeType = js ''video/mp4''\<rparr>], example_db2)
   \<and> addVersion example_db2 102 (Num 1) (Some clip_v2) 1
       = (Inr \<lparr>nv_id = 1, nv_versionNumber = 2, nv_fileSize = 3000000\<rparr>, example_db3)
   \<and> restoreVersion example_db3 (Num 1) (Num 1) = (Inl NotFound, example_db3)
   \<and> fst (restoreVersion example_db3 (Num 1) (Num 1)) \<noteq> Inr 1
   \<and> map_option f_current_version (select_file example_db3 1) = Some 2
   \<and> listVersions example_db3 (Num 1)
       = Inr \<lparr>vr_fileId = 1, vr_filename = js ''clip.mp4'', vr_currentVersion = 2,
               vr_versions = [\<lparr>vi_id = 1, vi_versionNumber = 2, vi_fileSize = 3000000,
                                vi_uploadedAt = 102, vi_uploadedBy = js ''jonah'',
                                vi_isCurrent = True\<rparr>]\<rparr>"
proof -
  have "restoreVersion example_db3 (Num 1) (Num 1) = (Inl NotFound, example_db3)"
    by (simp add: restoreVersion_def example_db3_eq select_file_def select_version_def)
  moreover have "map_option f_current_version (select_file example_db3 1) = Some 2"
    by (simp add: example_db3_eq select_file_def)
  moreover have "listVersions example_db3 (Num 1)
       = Inr \<lparr>vr_fileId = 1, vr_filename = js ''clip.mp4'', vr_currentVersion = 2,
               vr_versions = [\<lparr>vi_id = 1, vi_versionNumber = 2, vi_fileSize = 3000000,
                                vi_uploadedAt = 102, vi_uploadedBy = js ''jonah'',
                                vi_isCurrent = True\<rparr>]\<rparr>"
    by (simp add: listVersions_def example_db3_eq example_users_def select_file_def)
  ultimately show ?thesis
    using example_upload example_addVersion by simp
qed

subsection \<open>DeleteFolder and the cascade\<close>

lemma in_subtree_ids:
  "in_subtree rows a d \<Longrightarrow> a \<in> d_id ` set rows \<and> d \<in> d_id ` set rows"
  by (induction rule: in_subtree.induct) auto

lemma in_subtree_mono:
  assumes "in_subtree rows a d" and "set rows \<subseteq> set rows'"
  shows "in_subtree rows' a d"
  using assms
proof (induction rule: in_subtree.induct)
  case subtree_root
  then show ?case by (auto intro: in_subtree.subtree_root)
next
  case (subtree_child p r)
  then show ?case by (auto intro: in_subtree.subtree_child)
qed

lemma in_subtree_trans:
  assumes "in_subtree rows b d" and "in_subtree rows a b"
  shows "in_subtree rows a d"
  using assms
proof (induction rule: in_subtree.induct)
  case subtree_root
  then show ?case by simp
next
  case (subtree_child p r)
  then show ?case by (auto intro: in_subtree.subtree_child)
qed

lemma subtree_level_ids: "subtree_level rows a d k \<Longrightarrow> a \<in> d_id ` set rows"
  by (induction rule: subtree_level.induct) auto

lemma subtree_level_mono:
  assumes "subtree_level rows a d k" and "set rows \<subseteq> set rows'"
  shows "subtree_level rows' a d k"
  using assms
proof (induction rule: subtree_level.induct)
  case level_root
  then show ?case by (auto intro: subtree_level.level_root)
next
  case (level_child p k r)
  then show ?case by (auto intro: subtree_level.level_child)
qed

lemma subtree_level_trans:
  assumes "subtree_level rows b d k" and "subtree_level rows a b j"
  shows "subtree_level rows a d (j + k)"
  using assms
proof (induction rule: subtree_level.induct)
  case level_root
  then show ?case by simp
next
  case (level_child p k r)
  then show ?case by (auto intro: subtree_level.level_child)
qed

lemma subtree_level_in_subtree: "subtree_level rows a d k \<Longrightarrow> in_subtree rows a d"
  by (induction rule: subtree_level.induct) (auto intro: in_subtree.intros)

lemma in_subtree_level: "in_subtree rows a d \<Longrightarrow> \<exists>k. subtree_level rows a d k"
  by (induction rule: in_subtree.induct) (auto intro: subtree_level.intros)

text \<open>
  A path from \<open>a\<close> in the table either ends at the deleted row \<open>i\<close>, or avoids it, or
  passes through one of its children and then avoids it.
\<close>

lemma in_subtree_split:
  assumes "in_subtree rows a d"
  shows "d = i
       \<or> (a \<noteq> i \<and> in_subtree (filter (\<lambda>r. d_id r \<noteq> i) rows) a d)
       \<or> (\<exists>c \<in> set (map d_id (filter (\<lambda>r. d_parent_folder_id r = Some i)
                 (filter (\<lambda>r. d_id r \<noteq> i) rows))).
             in_subtree (filter (\<lambda>r. d_id r \<noteq> i) rows) c d)"
  using assms
proof (induction rule: in_subtree.induct)
  case subtree_root
  show ?case
  proof (cases "a = i")
    case True
    then show ?thesis by simp
  next
    case False
    with subtree_root have "a \<in> d_id ` set (filter (\<lambda>r. d_id r \<noteq> i) rows)" by auto
    then have "in_subtree (filter (\<lambda>r. d_id r \<noteq> i) rows) a a"
      by (rule in_subtree.subtree_root)
    with False show ?thesis by simp
  qed
next
  case (subtree_child p r)
  let ?rest = "filter (\<lambda>r. d_id r \<noteq> i) rows"
  let ?kids = "map d_id (filter (\<lambda>r. d_parent_folder_id r = Some i) ?rest)"
  show ?case
  proof (cases "d_id r = i")
    case True
    then show ?thesis by simp
  next
    case False
    with subtree_child.hyps have r: "r \<in> set ?rest" by simp
    show ?thesis
    proof (cases "p = i")
      case True
      with r subtree_child.hyps have k: "d_id r \<in> set ?kids" by auto
      from r have "in_subtree ?rest (d_id r) (d_id r)"
        by (intro in_subtree.subtree_root) auto
      with k show ?thesis by blast
    next
      case pi: False
      from subtree_child.IH pi
      consider "a \<noteq> i \<and> in_subtree ?rest a p" | c where "c \<in> set ?kids" "in_subtree ?rest c p"
        by blast
      then show ?thesis
      proof cases
        case 1
        then have "in_subtree ?rest a (d_id r)"
          using r subtree_child.hyps(3) by (auto intro: in_subtree.subtree_child)
        with 1 show ?thesis by blast
      next
        case 2
        then have "in_subtree ?rest c (d_id r)"
          using r subtree_child.hyps(3) by (auto intro: in_subtree.subtree_child)
        with 2 show ?thesis by blast
      qed
    qed
  qed
qed

text \<open>
  Deleting the row \<open>i\<close> and putting its children in its place leaves the same rows to
  delete.
\<close>

lemma subtree_step:
  assumes i: "i \<in> d_id ` set rows"
  shows "(\<exists>a \<in> set (i # ids). in_subtree rows a d)
       = (d = i \<or> (\<exists>a \<in> set (map d_id (filter (\<lambda>r. d_parent_folder_id r = Some i)
                          (filter (\<lambda>r. d_id r \<noteq> i) rows)) @ ids).
                     in_subtree (filter (\<lambda>r. d_id r \<noteq> i) rows) a d))"
proof
  let ?rest = "filter (\<lambda>r. d_id r \<noteq> i) rows"
  let ?kids = "map d_id (filter (\<lambda>r. d_parent_folder_id r = Some i) ?rest)"
  have sub: "set ?rest \<subseteq> set rows" by auto
  {
    assume "\<exists>a \<in> set (i # ids). in_subtree rows a d"
    then obtain a where a: "a = i \<or> a \<in> set ids" and s: "in_subtree rows a d"
      by auto
    from in_subtree_split[OF s, of i] a
    show "d = i \<or> (\<exists>a \<in> set (?kids @ ids). in_subtree ?rest a d)"
      by auto
  }
  {
    assume "d = i \<or> (\<exists>a \<in> set (?kids @ ids). in_subtree ?rest a d)"
    then consider "d = i" | a where "a \<in> set ?kids" "in_subtree ?rest a d"
      | a where "a \<in> set ids" "in_subtree ?rest a d"
      by auto
    then show "\<exists>a \<in> set (i # ids). in_subtree rows a d"
    proof cases
      case 1
      with i have "in_subtree rows i d"
        by (auto intro: in_subtree.subtree_root)
      then show ?thesis by simp
    next
      case 2
      from 2(1) obtain k where k: "k \<in> set rows" "d_parent_folder_id k = Some i" "d_id k = a"
        by auto
      from i have "in_subtree rows i i" by (rule in_subtree.subtree_root)
      from in_subtree.subtree_child[OF this k(1,2)] k(3)
      have "in_subtree rows i a" by simp
      moreover from 2(2) sub have "in_subtree rows a d" by (rule in_subtree_mono)
      ultimately have "in_subtree rows i d" by (rule in_subtree_trans[rotated])
      then show ?thesis by simp
    next
      case 3
      from 3(2) sub have "in_subtree rows a d" by (rule in_subtree_mono)
      with 3(1) show ?thesis by auto
    qed
  }
qed

text \<open>
  When no row to delete lies at the level SQLite refuses, the cascade deletes exactly
  the rows of the subtrees of the ids to delete.
\<close>

lemma delete_cascade_Some:
  assumes "\<forall>(a, l) \<in> set todo. \<forall>d k. subtree_level rows a d k \<longrightarrow> l + k < max_trigger_depth"
  shows "delete_cascade rows todo
     = Some (filter (\<lambda>r. \<not> (\<exists>a \<in> set (map fst todo). in_subtree rows a (d_id r))) rows)"
  using assms
proof (induction rows todo rule: delete_cascade.induct)
  case (1 rows)
  show ?case by simp
next
  case (2 rows i level todo)
  let ?rest = "filter (\<lambda>r. d_id r \<noteq> i) rows"
  let ?kids = "filter (\<lambda>r. d_parent_folder_id r = Some i) ?rest"
  let ?todo = "map (\<lambda>r. (d_id r, Suc level)) ?kids @ todo"
  have sub: "set ?rest \<subseteq> set rows" by auto
  show ?case
  proof (cases "i \<in> d_id ` set rows")
    case False
    then have "\<not> in_subtree rows i d" for d
      using in_subtree_ids by blast
    then have same: "(\<exists>a \<in> set (map fst ((i, level) # todo)). in_subtree rows a d)
        = (\<exists>a \<in> set (map fst todo). in_subtree rows a d)"
      for d by simp
    have "\<forall>(a, l) \<in> set todo. \<forall>d k. subtree_level rows a d k \<longrightarrow> l + k < max_trigger_depth"
      using "2.prems" by simp
    from "2.IH"(2)[OF False this] False show ?thesis
      by (simp only: same delete_cascade.simps if_False)
  next
    case True
    then have "subtree_level rows i i 0" by (rule subtree_level.level_root)
    with "2.prems" have lev: "\<not> max_trigger_depth \<le> level" by fastforce
    have inv: "\<forall>(a, l) \<in> set ?todo. \<forall>d k. subtree_level ?rest a d k \<longrightarrow> l + k < max_trigger_depth"
    proof (intro ballI, clarify)
      fix a l d k
      assume m: "(a, l) \<in> set ?todo" and s: "subtree_level ?rest a d k"
      from s sub have s': "subtree_level rows a d k" by (rule subtree_level_mono)
      from m consider r where "r \<in> set rows" "d_parent_folder_id r = Some i" "a = d_id r"
          "l = Suc level"
        | "(a, l) \<in> set todo"
        by auto
      then show "l + k < max_trigger_depth"
      proof cases
        case 1
        from subtree_level.level_child[OF \<open>subtree_level rows i i 0\<close> 1(1,2)] 1(3)
        have "subtree_level rows i a (Suc 0)" by simp
        from subtree_level_trans[OF s' this] have "subtree_level rows i d (Suc 0 + k)" .
        with "2.prems" have "level + (Suc 0 + k) < max_trigger_depth" by fastforce
        with 1(4) show ?thesis by simp
      next
        case 2
        with "2.prems" s' show ?thesis by fastforce
      qed
    qed
    have ids: "map fst ?todo = map d_id ?kids @ map fst todo"
      by (simp add: comp_def)
    have "delete_cascade rows ((i, level) # todo) = delete_cascade ?rest ?todo"
      using True lev by simp
    also have "\<dots> = Some (filter (\<lambda>r. \<not> (\<exists>a \<in> set (map fst ?todo). in_subtree ?rest a (d_id r)))
                         ?rest)"
      by (rule "2.IH"(1)[OF True lev inv])
    also have "filter (\<lambda>r. \<not> (\<exists>a \<in> set (map fst ?todo). in_subtree ?rest a (d_id r))) ?rest
        = filter (\<lambda>r. d_id r \<noteq> i
          \<and> \<not> (\<exists>a \<in> set (map d_id ?kids @ map fst todo). in_subtree ?rest a (d_id r))) rows"
      unfolding ids by (simp add: conj_commute)
    also have "\<dots> = filter (\<lambda>r. \<not> (\<exists>a \<in> set (map fst ((i, level) # todo)).
                        in_subtree rows a (d_id r))) rows"
      using subtree_step[OF True, of "map fst todo"] by (intro filter_cong[OF refl]) simp
    finally show ?thesis .
  qed
qed

lemma select_folder_None: "(select_folder db (Some i) = None) = (i \<notin> d_id ` set (folders db))"
  by (auto simp: select_folder_def find_None_iff)

lemma select_folder_Some:
  "select_folder db (Some i) = Some g \<Longrightarrow> g \<in> set (folders db) \<and> d_id g = i"
  unfolding select_folder_def by (drule find_Some_mem) simp

lemma listContents_absent:
  assumes "d \<noteq> 0" and "d \<notin> d_id ` set (folders db)"
  shows "listContents db (Some (Num d)) = Inl NotFound"
  using assms by (simp add: listContents_def select_folder_None)

lemma deleteFolder_deletes:
  assumes g: "select_folder db (Some i) = Some g" and c: "d_created_by g = uid"
    and l: "\<forall>d k. subtree_level (folders db) i d k \<longrightarrow> k < max_trigger_depth"
  shows "deleteFolder db (Num i) uid
           = (Inr (), db\<lparr>folders := filter (\<lambda>r. \<not> in_subtree (folders db) i (d_id r))
                                      (folders db)\<rparr>)"
proof -
  have "delete_cascade (folders db) [(i, 0)]
      = Some (filter (\<lambda>r. \<not> (\<exists>a \<in> set (map fst [(i, 0::nat)]).
                 in_subtree (folders db) a (d_id r))) (folders db))"
    by (rule delete_cascade_Some) (use l in simp)
  then show ?thesis using g c by (simp add: deleteFolder_def)
qed

text \<open>
  C7, as the code has it. DeleteFolder fails with NotFound when the folder is absent
  and with PermissionDenied when the caller is not its creator, and changes nothing in
  both cases. Otherwise, when no folder of the subtree lies 1000 or more levels below
  the folder, it succeeds and deletes the rows of the folder and of all its
  descendants, and no other row: the users, the file rows and the version rows are as
  they were. Afterwards no id of the subtree is the id of a folder, and, the ids of a
  catalog state being positive, ListContents on each of them answers NotFound.
\<close>

theorem deleteFolder_cascade:
  "(select_folder db (Some i) = None \<longrightarrow> deleteFolder db (Num i) uid = (Inl NotFound, db))
   \<and> (\<forall>g. select_folder db (Some i) = Some g \<and> d_created_by g \<noteq> uid \<longrightarrow>
          deleteFolder db (Num i) uid = (Inl PermissionDenied, db))
   \<and> (\<forall>g. select_folder db (Some i) = Some g \<and> d_created_by g = uid
            \<and> (\<forall>d k. subtree_level (folders db) i d k \<longrightarrow> k < max_trigger_depth) \<longrightarrow>
          (\<exists>db'. deleteFolder db (Num i) uid = (Inr (), db')
             \<and> folders db' = filter (\<lambda>r. \<not> in_subtree (folders db) i (d_id r)) (folders db)
             \<and> files db' = files db \<and> file_versions db' = file_versions db
             \<and> users db' = users db
             \<and> (\<forall>d. in_subtree (folders db) i d \<longrightarrow>
                    d \<notin> d_id ` set (folders db')
                    \<and> (d \<noteq> 0 \<longrightarrow> listContents db' (Some (Num d)) = Inl NotFound)
                    \<and> (catalog_ok db \<longrightarrow> listContents db' (Some (Num d)) = Inl NotFound))))"
proof (intro conjI allI impI)
  assume "select_folder db (Some i) = None"
  then show "deleteFolder db (Num i) uid = (Inl NotFound, db)"
    by (simp add: deleteFolder_def)
next
  fix g assume "select_folder db (Some i) = Some g \<and> d_created_by g \<noteq> uid"
  then show "deleteFolder db (Num i) uid = (Inl PermissionDenied, db)"
    by (simp add: deleteFolder_def)
next
  fix g assume a: "select_folder db (Some i) = Some g \<and> d_created_by g = uid
            \<and> (\<forall>d k. subtree_level (folders db) i d k \<longrightarrow> k < max_trigger_depth)"
  let ?db = "db\<lparr>folders := filter (\<lambda>r. \<not> in_subtree (folders db) i (d_id r)) (folders db)\<rparr>"
  have del: "deleteFolder db (Num i) uid = (Inr (), ?db)"
    using a by (intro deleteFolder_deletes) auto
  have gone: "d \<notin> d_id ` set (folders ?db)" if "in_subtree (folders db) i d" for d
    using that by auto
  have nf: "listContents ?db (Some (Num d)) = Inl NotFound"
    if "in_subtree (folders db) i d" "d \<noteq> 0" for d
    using gone[OF that(1)] that(2) by (rule listContents_absent[rotated])
  have pos: "d \<noteq> 0" if "in_subtree (folders db) i d" "catalog_ok db" for d
  proof -
    from in_subtree_ids[OF that(1)] obtain r where "r \<in> set (folders db)" "d_id r = d"
      by auto
    with that(2) show ?thesis by (auto simp: catalog_ok_def folders_ok_def)
  qed
  show "\<exists>db'. deleteFolder db (Num i) uid = (Inr (), db')
             \<and> folders db' = filter (\<lambda>r. \<not> in_subtree (folders db) i (d_id r)) (folders db)
             \<and> files db' = files db \<and> file_versions db' = file_versions db
             \<and> users db' = users db
             \<and> (\<forall>d. in_subtree (folders db) i d \<longrightarrow>
                    d \<notin> d_id ` set (folders db')
                    \<and> (d \<noteq> 0 \<longrightarrow> listContents db' (Some (Num d)) = Inl NotFound)
                    \<and> (catalog_ok db \<longrightarrow> listContents db' (Some (Num d)) = Inl NotFound))"
  proof (intro exI[of _ ?db] conjI allI impI)
    show "deleteFolder db (Num i) uid = (Inr (), ?db)" by (rule del)
    show "folders ?db = filter (\<lambda>r. \<not> in_subtree (folders db) i (d_id r)) (folders db)"
      by simp
    show "files ?db = files db" "file_versions ?db = file_versions db" "users ?db = users db"
      by simp_all
  next
    fix d assume "in_subtree (folders db) i d"
    then show "d \<notin> d_id ` set (folders ?db)" by (rule gone)
  next
    fix d assume "in_subtree (folders db) i d" "d \<noteq> 0"
    then show "listContents ?db (Some (Num d)) = Inl NotFound" by (rule nf)
  next
    fix d assume s: "in_subtree (folders db) i d" and "catalog_ok db"
    then have "d \<noteq> 0" by (rule pos)
    with s show "listContents ?db (Some (Num d)) = Inl NotFound" by (rule nf)
  qed
qed

lemma example_tree_eq:
  "example_tree = \<lparr>users = example_users,
      folders = [\<lparr>d_id = 1, d_name = js ''Media'', d_parent_folder_id = None,
                  d_created_by = 1, d_created_at = 100\<rparr>,
                 \<lparr>d_id = 2, d_name = js ''raw'', d_parent_folder_id = Some 1,
                  d_created_by = 1, d_created_at = 101\<rparr>,
                 \<lparr>d_id = 3, d_name = js ''takes'', d_parent_folder_id = Some 2,
                  d_created_by = 2, d_created_at = 102\<rparr>,
                 \<lparr>d_id = 4, d_name = js ''Other'', d_parent_folder_id = None,
                  d_created_by = 2, d_created_at = 103\<rparr>],
      files = [\<lparr>f_id = 1, f_filename = m_filename clip_v1,
                 f_original_filename = js ''clip.mp4'', f_file_path = m_path clip_v1,
                 f_file_size = 2000000, f_mime_type = js ''video/mp4'', f_uploaded_by = 2,
                 f_uploaded_at = 104, f_folder_id = Some 3, f_current_version = 1\<rparr>],
      file_versions = [], folders_seq = 4, files_seq = 1, file_versions_seq = 0\<rparr>"
  by (simp add: example_tree_def eval_folders eval_files eval_strings)

lemma catalog_ok_example_tree: "catalog_ok example_tree"
  by (simp add: example_tree_eq example_users_def catalog_ok_def folders_ok_def files_ok_def
      versions_ok_def js_def)

lemma example_tree_levels:
  "subtree_level (folders example_tree) 1 d k \<Longrightarrow> k < 3"
proof -
  have "subtree_level (folders example_tree) a d k \<Longrightarrow> a = 1 \<Longrightarrow>
          (d, k) \<in> {(1, 0), (2, 1), (3, 2)}" for a
    by (induction rule: subtree_level.induct) (auto simp: example_tree_eq)
  then show "subtree_level (folders example_tree) 1 d k \<Longrightarrow> k < 3"
    by fastforce
qed

theorem deleteFolder_cascade_witness:
  "catalog_ok example_tree
   \<and> in_subtree (folders example_tree) 1 3
   \<and> deleteFolder example_tree (Num 9) 1 = (Inl NotFound, example_tree)
   \<and> deleteFolder example_tree (Num 1) 2 = (Inl PermissionDenied, example_tree)
   \<and> fst (deleteFolder example_tree (Num 1) 1) = Inr ()
   \<and> map d_id (folders (snd (deleteFolder example_tree (Num 1) 1))) = [4]
   \<and> files (snd (deleteFolder example_tree (Num 1) 1)) = files example_tree
   \<and> map f_folder_id (files (snd (deleteFolder example_tree (Num 1) 1))) = [Some 3]
   \<and> listContents (snd (deleteFolder example_tree (Num 1) 1)) (Some (Num 3)) = Inl NotFound"
proof -
  let ?rows = "folders example_tree"
  have r1: "in_subtree ?rows 1 1"
    by (rule in_subtree.subtree_root) (simp add: example_tree_eq)
  have r2: "in_subtree ?rows 1 2"
    using in_subtree.subtree_child[OF r1, of "?rows ! 1"] by (simp add: example_tree_eq)
  have r3: "in_subtree ?rows 1 3"
    using in_subtree.subtree_child[OF r2, of "?rows ! 2"] by (simp add: example_tree_eq)
  have s9: "select_folder example_tree (Some 9) = None"
    by (simp add: example_tree_eq select_folder_def)
  have s1: "select_folder example_tree (Some 1) = Some (?rows ! 0)"
    by (simp add: example_tree_eq select_folder_def)
  have c1: "d_created_by (?rows ! 0) = 1" by (simp add: example_tree_eq)
  have lv: "\<forall>d k. subtree_level ?rows 1 d k \<longrightarrow> k < max_trigger_depth"
    using example_tree_levels by (fastforce simp: max_trigger_depth_def)
  from deleteFolder_cascade[of example_tree 9 1] s9
  have nf: "deleteFolder example_tree (Num 9) 1 = (Inl NotFound, example_tree)" by blast
  from deleteFolder_cascade[of example_tree 1 2] s1 c1
  have pd: "deleteFolder example_tree (Num 1) 2 = (Inl PermissionDenied, example_tree)"
    by simp
  from deleteFolder_cascade[of example_tree 1 1] s1 c1 lv
  obtain db' where del: "deleteFolder example_tree (Num 1) 1 = (Inr (), db')"
    and fs: "files db' = files example_tree"
    and lc: "\<forall>d. in_subtree ?rows 1 d \<longrightarrow>
               (catalog_ok example_tree \<longrightarrow> listContents db' (Some (Num d)) = Inl NotFound)"
    by auto
  from lc r3 catalog_ok_example_tree
  have l3: "listContents db' (Some (Num 3)) = Inl NotFound" by blast
  have ev: "deleteFolder example_tree (Num 1) 1
      = (Inr (), example_tree\<lparr>folders := [?rows ! 3]\<rparr>)"
    by (simp add: deleteFolder_def select_folder_def example_tree_eq max_trigger_depth_def)
  with del have db': "db' = example_tree\<lparr>folders := [?rows ! 3]\<rparr>" by simp
  show ?thesis
    using catalog_ok_example_tree r3 nf pd del l3 fs
    by (simp add: db') (simp add: example_tree_eq)
qed

text \<open>The chain of \<open>n\<close> folders: deleting from folder \<open>j\<close>, which lies at level \<open>l\<close>.\<close>

lemma chain_rest:
  "filter (\<lambda>r. d_id r \<noteq> int j) (map chain_folder [j ..< Suc n])
     = map chain_folder [Suc j ..< Suc n]"
proof (cases "j < Suc n")
  case True
  then have "[j ..< Suc n] = j # [Suc j ..< Suc n]" by (rule upt_conv_Cons)
  moreover have "filter (\<lambda>r. d_id r \<noteq> int j) (map chain_folder [Suc j ..< Suc n])
      = map chain_folder [Suc j ..< Suc n]"
    by (rule filter_True) (auto simp: chain_folder_def)
  ultimately show ?thesis by (simp add: chain_folder_def)
next
  case False
  then show ?thesis by simp
qed

lemma chain_kids:
  assumes "1 \<le> j"
  shows "filter (\<lambda>r. d_parent_folder_id r = Some (int j)) (map chain_folder [Suc j ..< Suc n])
     = (if j < n then [chain_folder (Suc j)] else [])"
proof (cases "j < n")
  case True
  then have "[Suc j ..< Suc n] = Suc j # [Suc (Suc j) ..< Suc n]" by (simp add: upt_conv_Cons)
  moreover have "filter (\<lambda>r. d_parent_folder_id r = Some (int j))
      (map chain_folder [Suc (Suc j) ..< Suc n]) = []"
    by (rule filter_False) (auto simp: chain_folder_def)
  ultimately show ?thesis using True assms by (simp add: chain_folder_def)
next
  case False
  then show ?thesis by simp
qed

lemma chain_cascade:
  "1 \<le> j \<Longrightarrow> j \<le> n \<Longrightarrow>
     delete_cascade (map chain_folder [j ..< Suc n]) [(int j, l)]
       = (if l + (n - j) < max_trigger_depth then Some [] else None)"
proof (induction "n - j" arbitrary: j l)
  case 0
  then have jn: "j = n" by simp
  have mem: "int n \<in> d_id ` set (map chain_folder [n ..< Suc n])"
    by (simp add: chain_folder_def)
  show ?case
    unfolding jn using mem chain_rest[of n n]
    by (simp del: upt_Suc add: delete_cascade.simps)
next
  case (Suc m)
  then have lt: "j < n" and m: "m = n - Suc j" by simp_all
  have mem: "int j \<in> d_id ` set (map chain_folder [j ..< Suc n])"
    using lt by (auto simp: chain_folder_def image_iff intro!: bexI[of _ j])
  have step: "delete_cascade (map chain_folder [j ..< Suc n]) [(int j, l)]
      = (if max_trigger_depth \<le> l then None
         else delete_cascade (map chain_folder [Suc j ..< Suc n]) [(int (Suc j), Suc l)])"
    using mem chain_rest[of j n] chain_kids[OF Suc.prems(1), of n] lt
    by (simp del: upt_Suc add: chain_folder_def)
  have ih: "delete_cascade (map chain_folder [Suc j ..< Suc n]) [(int (Suc j), Suc l)]
      = (if Suc l + (n - Suc j) < max_trigger_depth then Some [] else None)"
    by (rule Suc.hyps(1)[OF m]) (use lt in simp_all)
  show ?case unfolding step ih using lt by auto
qed

lemma chain_select:
  assumes "1 \<le> j" and "j \<le> n"
  shows "select_folder (chain_db n) (Some (int j)) = Some (chain_folder j)"
proof -
  have "[1 ..< j + (Suc n - j)] = [1 ..< j] @ [j ..< j + (Suc n - j)]"
    using assms(1) by (rule upt_add_eq_append)
  moreover have "j + (Suc n - j) = Suc n" using assms(2) by simp
  moreover have "[j ..< Suc n] = j # [Suc j ..< Suc n]"
    using assms(2) by (intro upt_conv_Cons) simp
  ultimately have split_list: "[1 ..< Suc n] = [1 ..< j] @ j # [Suc j ..< Suc n]"
    by simp
  have none: "find (\<lambda>r. d_id r = int j) (map chain_folder [1 ..< j]) = None"
    by (auto simp: find_None_iff chain_folder_def)
  have id: "d_id (chain_folder j) = int j" by (simp add: chain_folder_def)
  have "find (\<lambda>r. d_id r = int j) (map chain_folder [1 ..< Suc n])
      = find (\<lambda>r. d_id r = int j) (map chain_folder [1 ..< j]
          @ chain_folder j # map chain_folder [Suc j ..< Suc n])"
    by (simp only: split_list map_append list.map)
  also have "\<dots> = Some (chain_folder j)"
    by (simp only: find_append_case none option.case find.simps id) simp
  finally show ?thesis
    by (simp add: select_folder_def chain_db_def del: upt_Suc)
qed

lemma catalog_ok_chain_db: "catalog_ok (chain_db n)"
proof -
  have f: "folders (chain_db n) = map chain_folder [1 ..< Suc n]"
    by (simp add: chain_db_def)
  have u: "users (chain_db n) = example_users" and q: "folders_seq (chain_db n) = int n"
    by (simp_all add: chain_db_def empty_database_def)
  have dist: "distinct (map d_id (folders (chain_db n)))"
    unfolding f by (simp add: chain_folder_def comp_def distinct_map inj_on_def del: upt_Suc)
  have row: "0 < d_id r \<and> d_id r \<le> folders_seq (chain_db n) \<and> d_name r \<noteq> [] \<and>
         d_created_by r \<in> u_id ` set (users (chain_db n)) \<and>
         (\<forall>p. d_parent_folder_id r = Some p \<longrightarrow> p \<in> d_id ` set (folders (chain_db n)))"
    if "r \<in> set (folders (chain_db n))" for r
  proof -
    from that obtain j where r: "r = chain_folder j" and j: "1 \<le> j" "j \<le> n"
      unfolding f by auto
    have "p \<in> d_id ` set (folders (chain_db n))" if "d_parent_folder_id r = Some p" for p
    proof -
      from that r have j1: "j \<noteq> 1" and p: "p = int j - 1"
        by (auto simp: chain_folder_def split: if_splits)
      have "1 \<le> j - 1 \<and> j - 1 < Suc n" using j j1 by arith
      then have "j - 1 \<in> set [1 ..< Suc n]" by (simp del: upt_Suc)
      then have "chain_folder (j - 1) \<in> set (folders (chain_db n))"
        unfolding f by (simp only: set_map) (rule imageI)
      moreover have "d_id (chain_folder (j - 1)) = p"
        using j j1 p by (simp add: chain_folder_def)
      ultimately show ?thesis by (rule image_eqI[rotated, OF _ sym])
    qed
    then show ?thesis
      using j by (simp add: r q u chain_folder_def example_users_def js_def)
  qed
  have "folders_ok (chain_db n)"
    unfolding folders_ok_def using dist row by (simp add: q)
  then show ?thesis
    by (simp add: catalog_ok_def files_ok_def versions_ok_def chain_db_def empty_database_def
        example_users_def)
qed

theorem deleteFolder_deep_chain:
  "catalog_ok (chain_db 1001)
   \<and> select_folder (chain_db 1001) (Some 1) = Some (chain_folder 1)
   \<and> d_created_by (chain_folder 1) = 1
   \<and> deleteFolder (chain_db 1001) (Num 1) 1 = (Inl InternalError, chain_db 1001)
   \<and> (\<exists>answer. listContents (chain_db 1001) (Some (Num 1001)) = Inr answer)
   \<and> deleteFolder (chain_db 1000) (Num 1) 1 = (Inr (), (chain_db 1000)\<lparr>folders := []\<rparr>)"
proof -
  have s: "select_folder (chain_db n) (Some 1) = Some (chain_folder 1)" if "1 \<le> n" for n
    using chain_select[of 1 n] that by simp
  have c: "d_created_by (chain_folder 1) = 1" by (simp add: chain_folder_def)
  have f: "folders (chain_db n) = map chain_folder [1 ..< Suc n]" for n
    by (simp add: chain_db_def)
  have casc: "delete_cascade (folders (chain_db n)) [(1, 0)]
      = (if n - 1 < max_trigger_depth then Some [] else None)" if "1 \<le> n" for n
    using chain_cascade[of 1 n 0] that by (simp add: f)
  have d1: "deleteFolder (chain_db 1001) (Num 1) 1 = (Inl InternalError, chain_db 1001)"
    using s[of 1001] c casc[of 1001] by (simp add: deleteFolder_def max_trigger_depth_def)
  have d2: "deleteFolder (chain_db 1000) (Num 1) 1 = (Inr (), (chain_db 1000)\<lparr>folders := []\<rparr>)"
    using s[of 1000] c casc[of 1000] by (simp add: deleteFolder_def max_trigger_depth_def)
  have "select_folder (chain_db 1001) (Some 1001) = Some (chain_folder 1001)"
    using chain_select[of 1001 1001] by simp
  then have l: "\<exists>answer. listContents (chain_db 1001) (Some (Num 1001)) = Inr answer"
    by (simp add: listContents_def Let_def)
  show ?thesis using catalog_ok_chain_db s[of 1001] c d1 d2 l by simp
qed

subsection \<open>CreateFolder and the names of siblings\<close>

lemma sql_eq_same_parent: "(sql_eq a b \<or> (a = None \<and> b = None)) = (a = b)"
  by (cases a; cases b) auto

lemma length_sql_text: "length (sql_text s) = length s"
  by (induction s rule: sql_text.induct) auto

lemma truthy_opt_param:
  "truthy_opt p \<Longrightarrow> \<exists>n. sql_param p = Some n \<and> n \<noteq> 0"
  by (cases p rule: sql_param.cases) auto

text \<open>The query for an existing sibling, by the rows it selects.\<close>

lemma existing_sibling:
  "(find (\<lambda>r. d_name r = n
             \<and> (sql_eq (d_parent_folder_id r) p \<or> (d_parent_folder_id r = None \<and> p = None)))
       rows \<noteq> None)
     = (\<exists>r \<in> set rows. d_name r = n \<and> d_parent_folder_id r = p)"
  by (simp only: sql_eq_same_parent find_None_iff) auto

lemma createFolder_existing:
  assumes ok: "catalog_ok db" and r: "r \<in> set (folders db)"
    and n: "d_name r = sql_text (sanitizeFilename (js_trim name))"
    and p: "d_parent_folder_id r = sql_param parentFolderId"
  shows "createFolder db now name parentFolderId userId = (Inl Conflict, db)"
proof -
  from ok r have ne: "d_name r \<noteq> []"
    and par: "\<forall>q. d_parent_folder_id r = Some q \<longrightarrow> q \<in> d_id ` set (folders db)"
    by (auto simp: catalog_ok_def folders_ok_def)
  from ne n have s: "sanitizeFilename (js_trim name) \<noteq> []"
    using length_sql_text[of "sanitizeFilename (js_trim name)"] by auto
  then have t: "js_trim name \<noteq> []" using sanitizeFilename_Nil by auto
  have found: "\<not> (truthy_opt parentFolderId
                  \<and> select_folder db (sql_param parentFolderId) = None)"
  proof
    assume a: "truthy_opt parentFolderId \<and> select_folder db (sql_param parentFolderId) = None"
    then obtain q where q: "sql_param parentFolderId = Some q"
      using truthy_opt_param by blast
    with p par have "q \<in> d_id ` set (folders db)" by simp
    with a q show False by (simp add: select_folder_None)
  qed
  have ex: "find (\<lambda>r. d_name r = sql_text (sanitizeFilename (js_trim name))
             \<and> (sql_eq (d_parent_folder_id r) (sql_param parentFolderId)
                  \<or> (d_parent_folder_id r = None \<and> sql_param parentFolderId = None)))
       (folders db) \<noteq> None"
    unfolding existing_sibling using r n p by blast
  show ?thesis
    unfolding createFolder_def Let_def using s t found ex by simp
qed

lemma createFolder_twice:
  assumes c: "createFolder db now name parentFolderId userId = (Inr i, db1)"
    and n: "sanitizeFilename (js_trim name') = sanitizeFilename (js_trim name)"
  shows "createFolder db1 now' name' parentFolderId userId' = (Inl Conflict, db1)"
proof -
  from createFolder_inserted[OF c] obtain r where r: "folders db1 = folders db @ [r]"
    "d_name r = sql_text (sanitizeFilename (js_trim name))"
    "d_parent_folder_id r = sql_param parentFolderId"
    by blast
  from c have s: "sanitizeFilename (js_trim name) \<noteq> []" and t: "js_trim name \<noteq> []"
    and f: "\<not> (truthy_opt parentFolderId \<and> select_folder db (sql_param parentFolderId) = None)"
    by (auto simp: createFolder_def Let_def split: if_splits)
  from n s have s': "sanitizeFilename (js_trim name') \<noteq> []" by simp
  then have t': "js_trim name' \<noteq> []" using sanitizeFilename_Nil by auto
  have found: "\<not> (truthy_opt parentFolderId
                  \<and> select_folder db1 (sql_param parentFolderId) = None)"
  proof
    assume a: "truthy_opt parentFolderId \<and> select_folder db1 (sql_param parentFolderId) = None"
    then obtain q where q: "sql_param parentFolderId = Some q"
      using truthy_opt_param by blast
    from a f q have "q \<in> d_id ` set (folders db)" by (simp add: select_folder_None)
    then have "q \<in> d_id ` set (folders db1)" by (simp add: r(1))
    with a q show False by (simp add: select_folder_None)
  qed
  have ex: "find (\<lambda>r. d_name r = sql_text (sanitizeFilename (js_trim name'))
             \<and> (sql_eq (d_parent_folder_id r) (sql_param parentFolderId)
                  \<or> (d_parent_folder_id r = None \<and> sql_param parentFolderId = None)))
       (folders db1) \<noteq> None"
    unfolding existing_sibling using r n by auto
  show ?thesis
    unfolding createFolder_def Let_def using s' t' found ex by simp
qed

lemma createFolder_siblings:
  assumes "siblings_distinct db"
  shows "siblings_distinct (snd (createFolder db now name parentFolderId userId))"
proof (cases "fst (createFolder db now name parentFolderId userId)")
  case (Inl e)
  then have "snd (createFolder db now name parentFolderId userId) = db"
    by (auto simp: createFolder_def Let_def split: if_splits option.splits)
  with assms show ?thesis by simp
next
  case (Inr i)
  then obtain db' where c: "createFolder db now name parentFolderId userId = (Inr i, db')"
    by (cases "createFolder db now name parentFolderId userId") auto
  from createFolder_inserted[OF c] obtain r where r: "folders db' = folders db @ [r]"
    "d_name r = sql_text (sanitizeFilename (js_trim name))"
    "d_parent_folder_id r = sql_param parentFolderId"
    by blast
  from c have "\<not> (find (\<lambda>r. d_name r = sql_text (sanitizeFilename (js_trim name))
             \<and> (sql_eq (d_parent_folder_id r) (sql_param parentFolderId)
                  \<or> (d_parent_folder_id r = None \<and> sql_param parentFolderId = None)))
       (folders db) \<noteq> None)"
    by (auto simp: createFolder_def Let_def split: if_splits)
  then have "\<not> (\<exists>x \<in> set (folders db). d_name x = sql_text (sanitizeFilename (js_trim name))
                 \<and> d_parent_folder_id x = sql_param parentFolderId)"
    unfolding existing_sibling .
  then have "(d_parent_folder_id r, d_name r)
               \<notin> set (map (\<lambda>r. (d_parent_folder_id r, d_name r)) (folders db))"
    using r(2,3) by auto
  with assms have "siblings_distinct db'"
    by (simp add: siblings_distinct_def r(1))
  with c show ?thesis by simp
qed

lemma delete_cascade_filter:
  "delete_cascade rows todo = Some rows' \<Longrightarrow> \<exists>P. rows' = filter P rows"
proof (induction rows todo rule: delete_cascade.induct)
  case (1 rows)
  then have "rows' = filter (\<lambda>r. True) rows" by simp
  then show ?case by blast
next
  case (2 rows i level todo)
  show ?case
  proof (cases "i \<in> d_id ` set rows")
    case False
    with "2.prems" "2.IH"(2) show ?thesis by simp
  next
    case True
    with "2.prems" have lev: "\<not> max_trigger_depth \<le> level"
      by (auto split: if_splits)
    from "2.prems" True lev "2.IH"(1)[OF True lev]
    obtain P where "rows' = filter P (filter (\<lambda>r. d_id r \<noteq> i) rows)"
      by auto
    then have "rows' = filter (\<lambda>r. d_id r \<noteq> i \<and> P r) rows" by simp
    then show ?thesis by blast
  qed
qed

lemma deleteFolder_siblings:
  assumes "siblings_distinct db"
  shows "siblings_distinct (snd (deleteFolder db folderId uid))"
proof -
  have "snd (deleteFolder db folderId uid) = db
      \<or> (\<exists>P. snd (deleteFolder db folderId uid) = db\<lparr>folders := filter P (folders db)\<rparr>)"
    using delete_cascade_filter
    by (fastforce simp: deleteFolder_def split: jsnum.splits option.splits)
  with assms show ?thesis
    by (auto simp: siblings_distinct_def distinct_map_filter)
qed

text \<open>
  C2. In a catalog state, when a folder \<open>r\<close> with the parent of a CreateFolder call, or
  like it with none, bears the name the call would store, the sanitized name, the call
  fails with Conflict and the state is as before. So a second CreateFolder with the
  same sanitized name and the same parent as a successful one fails with Conflict.
  Hence no two folders with the same parent, or both with none, bear the same name: it
  is so where there is no folder; CreateFolder and DeleteFolder, the two handlers that
  write the folders table, keep it so, whatever they answer; and it says that two rows
  with the same parent and name are one row.
\<close>

theorem createFolder_conflict:
  "(catalog_ok db \<and> r \<in> set (folders db)
      \<and> d_name r = sql_text (sanitizeFilename (js_trim name))
      \<and> d_parent_folder_id r = sql_param parentFolderId \<longrightarrow>
      createFolder db now name parentFolderId userId = (Inl Conflict, db))
   \<and> (\<forall>i db1. createFolder db now name parentFolderId userId = (Inr i, db1)
         \<and> sanitizeFilename (js_trim name') = sanitizeFilename (js_trim name) \<longrightarrow>
         createFolder db1 now' name' parentFolderId userId' = (Inl Conflict, db1))
   \<and> siblings_distinct (empty_database us)
   \<and> (siblings_distinct db \<longrightarrow>
         siblings_distinct (snd (createFolder db now name parentFolderId userId))
         \<and> siblings_distinct (snd (deleteFolder db folderId userId))
         \<and> (\<forall>a \<in> set (folders db). \<forall>b \<in> set (folders db).
               d_parent_folder_id a = d_parent_folder_id b \<and> d_name a = d_name b \<longrightarrow> a = b))"
proof (intro conjI allI impI ballI)
  assume "catalog_ok db \<and> r \<in> set (folders db)
      \<and> d_name r = sql_text (sanitizeFilename (js_trim name))
      \<and> d_parent_folder_id r = sql_param parentFolderId"
  then show "createFolder db now name parentFolderId userId = (Inl Conflict, db)"
    using createFolder_existing by blast
next
  fix i db1
  assume "createFolder db now name parentFolderId userId = (Inr i, db1)
         \<and> sanitizeFilename (js_trim name') = sanitizeFilename (js_trim name)"
  then show "createFolder db1 now' name' parentFolderId userId' = (Inl Conflict, db1)"
    using createFolder_twice by blast
next
  show "siblings_distinct (empty_database us)"
    by (simp add: siblings_distinct_def empty_database_def)
next
  assume "siblings_distinct db"
  then show "siblings_distinct (snd (createFolder db now name parentFolderId userId))"
    by (rule createFolder_siblings)
next
  assume "siblings_distinct db"
  then show "siblings_distinct (snd (deleteFolder db folderId userId))"
    by (rule deleteFolder_siblings)
next
  fix a b
  assume d: "siblings_distinct db" and a: "a \<in> set (folders db)" and b: "b \<in> set (folders db)"
    and e: "d_parent_folder_id a = d_parent_folder_id b \<and> d_name a = d_name b"
  from d have "inj_on (\<lambda>r. (d_parent_folder_id r, d_name r)) (set (folders db))"
    by (simp add: siblings_distinct_def distinct_map)
  with a b e show "a = b" by (auto dest: inj_onD)
qed

theorem createFolder_conflict_witness:
  "catalog_ok example_db1
   \<and> createFolder example_db0 100 (js ''Media'') None 1 = (Inr 1, example_db1)
   \<and> createFolder example_db1 200 (js '' Media '') None 2 = (Inl Conflict, example_db1)
   \<and> createFolder example_db1 200 (js ''Media/'') (Some NaN) 2 \<noteq> (Inl Conflict, example_db1)
   \<and> siblings_distinct example_db1
   \<and> siblings_distinct (snd (deleteFolder example_db1 (Num 1) 1))"
proof -
  let ?r = "\<lparr>d_id = 1, d_name = js ''Media'', d_parent_folder_id = None,
             d_created_by = 1, d_created_at = 100\<rparr>"
  have c0: "createFolder example_db0 100 (js ''Media'') None 1 = (Inr 1, example_db1)"
    by (simp add: example_db1_eq) (simp add: eval_folders eval_strings)
  have r: "?r \<in> set (folders example_db1)" by (simp add: example_db1_eq)
  have n: "d_name ?r = sql_text (sanitizeFilename (js_trim (js '' Media '')))"
    by (simp add: eval_strings)
  have p: "d_parent_folder_id ?r = sql_param None" by simp
  from createFolder_conflict[where db = example_db1 and r = ?r and name = "js '' Media ''"
      and parentFolderId = None and now = 200 and userId = 2]
    catalog_ok_example_db1 r n p
  have c1: "createFolder example_db1 200 (js '' Media '') None 2 = (Inl Conflict, example_db1)"
    by blast
  have c2: "createFolder example_db1 200 (js ''Media/'') (Some NaN) 2
              \<noteq> (Inl Conflict, example_db1)"
    by (simp add: example_db1_eq createFolder_def insert_folder_def select_folder_def
        example_users_def eval_strings)
  from createFolder_conflict[where db = example_db0 and name = "js ''Media''"
      and parentFolderId = None and now = 100 and userId = 1 and us = example_users]
  have s1: "siblings_distinct example_db1"
    by (simp add: example_db0_def example_db1_def)
  from createFolder_conflict[where db = example_db1 and folderId = "Num 1" and userId = 1] s1
  have s2: "siblings_distinct (snd (deleteFolder example_db1 (Num 1) 1))"
    by blast
  show ?thesis using catalog_ok_example_db1 c0 c1 c2 s1 s2 by simp
qed

subsection \<open>Downloads\<close>

















end
